theory Spec2Isabelle
  imports Complex_Main "HOL-Library.Multiset" "HOL-Library.Word"
begin

section \<open>Colour quantisation: the model of \<^verbatim>\<open>src/color_reducer.py\<close>\<close>

text \<open>
  The class \<^verbatim>\<open>ColorReducer\<close> holds an image read by \<^verbatim>\<open>plt.imread\<close> and reduces
  its colours, either with scikit-learn's k-means or with a recursive median cut. The
  median cut is modelled in full; k-means is a library call and is a parameter of the
  model.

  \<^bold>\<open>Arrays and their element types.\<close> \<^verbatim>\<open>plt.imread\<close> returns an array of unsigned
  bytes for JPEG and most other formats, and an array of 32-bit floats for PNG. Both are
  images the class really receives, so the image is a datatype with one constructor for
  each. A grid is a list of rows of pixels; a numpy array is rectangular, the lists here
  need not be, and no theorem below needs them to be.

  \<^bold>\<open>What is idealised.\<close> The values of a float array are rationals (every finite
  float is one), and \<^verbatim>\<open>np.mean\<close> is the exact mean. For an image of bytes this is what
  numpy computes as long as the image has fewer than \<open>2^45\<close> pixels: the sum of the
  column is then exact in a 64-bit float, the quotient is rounded to within \<open>2^-45\<close>, and
  the cast back to a byte cuts the fraction off, which the rounding cannot change.
  \<^verbatim>\<open>n_colors\<close> is a Python integer. The depth \<^verbatim>\<open>int(np.log2(n_colors))\<close> is never
  negative when it exists, so the depth of the recursion is a natural number; it is the
  exact \<open>floor (log2 n_colors)\<close> below \<open>2^32\<close> and a parameter of the model above, where
  the rounding of the float decides (see \<open>n_color_param\<close>).

  \<^bold>\<open>Sorting.\<close> \<^verbatim>\<open>argsort()\<close> is called with numpy's default kind, an introsort whose
  order among equal keys numpy does not specify and which differs between builds. It is
  a parameter \<open>srt\<close> of the model, and the theorems assume of it only what numpy
  promises: \<open>argsort_ok\<close>.
\<close>

subsection \<open>Errors\<close>

datatype error =
    ValueError string
  | OverflowError
  | IndexError
  | TypeError

subsection \<open>Images and the flattened working array\<close>

type_synonym 'a pixel = "'a \<times> 'a \<times> 'a"

datatype image =
    UInt8Image "8 word pixel list list"
  | Float32Image "rat pixel list list"

text \<open>
  \<^verbatim>\<open>np.array(flattened_img_array)\<close> is one array of rows
  \<^verbatim>\<open>[color[0], color[1], color[2], rindex, cindex]\<close> with a single element type: 64-bit
  integers when the colours are bytes, 64-bit floats when they are floats (the two
  coordinates are then floats as well). The tag \<open>adtype\<close> records which; the
  coordinates are kept as naturals.
\<close>

datatype adtype = Int64 | Float64

record row =
  chan0 :: rat
  chan1 :: rat
  chan2 :: rat
  rindex :: nat
  cindex :: nat

definition chan :: "nat \<Rightarrow> row \<Rightarrow> rat" where
  "chan k d = (if k = 0 then chan0 d else if k = 1 then chan1 d else chan2 d)"

definition coord :: "row \<Rightarrow> nat \<times> nat" where
  "coord d = (rindex d, cindex d)"

definition mk_row :: "('a \<Rightarrow> rat) \<Rightarrow> nat \<Rightarrow> nat \<Rightarrow> 'a pixel \<Rightarrow> row" where
  "mk_row conv ri ci color =
     \<lparr>chan0 = conv (fst color), chan1 = conv (fst (snd color)),
      chan2 = conv (snd (snd color)), rindex = ri, cindex = ci\<rparr>"

text \<open>
  The two \<^verbatim>\<open>enumerate\<close> loops: one row of the array for each pixel, row by row.
  \<open>conv\<close> takes a colour value of the image to its value in the array.
\<close>

definition flatten_rows :: "('a \<Rightarrow> rat) \<Rightarrow> 'a pixel list list \<Rightarrow> row list" where
  "flatten_rows conv g =
     concat (map (\<lambda>(ri, rows). map (\<lambda>(ci, color). mk_row conv ri ci color) (enumerate 0 rows))
                 (enumerate 0 g))"

definition byte_rows :: "8 word pixel list list \<Rightarrow> row list" where
  "byte_rows g = flatten_rows (\<lambda>w. of_int (uint w)) g"

fun flattened_img_array :: "image \<Rightarrow> adtype \<times> row list" where
  "flattened_img_array (UInt8Image g) = (Int64, byte_rows g)"
| "flattened_img_array (Float32Image g) = (Float64, flatten_rows (\<lambda>x. x) g)"

subsection \<open>\<^verbatim>\<open>_median_cut_quantize_helper\<close>\<close>

definition np_mean :: "rat list \<Rightarrow> rat" where
  "np_mean xs = sum_list xs / of_nat (length xs)"

text \<open>
  Storing a float into an array of bytes casts it: the fraction is cut off. The means
  stored here lie between 0 and 255 (lemma \<open>np_mean_bounds\<close>), where the cast is exactly
  this.
\<close>

definition to_uint8 :: "rat \<Rightarrow> 8 word" where
  "to_uint8 x = word_of_int (if 0 \<le> x then \<lfloor>x\<rfloor> else \<lceil>x\<rceil>)"

definition cast_pixel :: "rat pixel \<Rightarrow> 8 word pixel" where
  "cast_pixel avg = (to_uint8 (fst avg), to_uint8 (fst (snd avg)), to_uint8 (snd (snd avg)))"

definition in_grid :: "'a list list \<Rightarrow> nat \<times> nat \<Rightarrow> bool" where
  "in_grid g rc \<longleftrightarrow> fst rc < length g \<and> snd rc < length (g ! fst rc)"

text \<open>
  \<^verbatim>\<open>img[data[3]][data[4]] = [r_average, g_average, b_average]\<close>. numpy refuses a float
  as an index, so a row of a float array raises \<^verbatim>\<open>IndexError\<close>; an integer out of
  range raises it as well. A float image with an integer array is a case that
  \<^verbatim>\<open>_median_cut_quantize\<close> never reaches (the array of a float image is a float array); numpy
  would round the mean to 32 bits there, which the rationals leave out.
\<close>

fun set_pixel :: "image \<Rightarrow> adtype \<Rightarrow> nat \<Rightarrow> nat \<Rightarrow> rat pixel \<Rightarrow> error + image" where
  "set_pixel img Float64 ri ci avg = Inl IndexError"
| "set_pixel (UInt8Image g) Int64 ri ci avg =
     (if in_grid g (ri, ci)
      then Inr (UInt8Image (g[ri := (g ! ri)[ci := cast_pixel avg]]))
      else Inl IndexError)"
| "set_pixel (Float32Image g) Int64 ri ci avg =
     (if in_grid g (ri, ci)
      then Inr (Float32Image (g[ri := (g ! ri)[ci := avg]]))
      else Inl IndexError)"

fun write_rows :: "image \<Rightarrow> adtype \<Rightarrow> rat pixel \<Rightarrow> row list \<Rightarrow> error + image" where
  "write_rows img dt avg [] = Inr img"
| "write_rows img dt avg (d # ds) =
     (case set_pixel img dt (rindex d) (cindex d) avg of
        Inl e \<Rightarrow> Inl e
      | Inr img' \<Rightarrow> write_rows img' dt avg ds)"

definition bucket_average :: "row list \<Rightarrow> rat pixel" where
  "bucket_average img_arr =
     (np_mean (map chan0 img_arr), np_mean (map chan1 img_arr), np_mean (map chan2 img_arr))"

definition median_cut_quantize_helper :: "image \<Rightarrow> adtype \<Rightarrow> row list \<Rightarrow> error + image" where
  "median_cut_quantize_helper img dt img_arr = write_rows img dt (bucket_average img_arr) img_arr"

subsection \<open>\<^verbatim>\<open>_split_into_buckets\<close>\<close>

text \<open>
  \<^verbatim>\<open>np.max(col) - np.min(col)\<close>, only ever taken of a bucket that is not empty (the
  function has returned before when it is).
\<close>

definition np_range :: "rat list \<Rightarrow> rat" where
  "np_range xs = Max (set xs) - Min (set xs)"

text \<open>\<^verbatim>\<open>np.argmax\<close> of three values: the first index that holds the maximum.\<close>

definition np_argmax3 :: "rat \<Rightarrow> rat \<Rightarrow> rat \<Rightarrow> nat" where
  "np_argmax3 r_range g_range b_range =
     (if g_range \<le> r_range \<and> b_range \<le> r_range then 0
      else if b_range \<le> g_range then 1 else 2)"

definition space_with_highest_range :: "row list \<Rightarrow> nat" where
  "space_with_highest_range img_arr =
     np_argmax3 (np_range (map chan0 img_arr)) (np_range (map chan1 img_arr))
                (np_range (map chan2 img_arr))"

text \<open>\<^verbatim>\<open>img_arr[img_arr[:, k].argsort()]\<close>: the rows, picked in the order of the indices.\<close>

definition sort_by_channel :: "(rat list \<Rightarrow> nat list) \<Rightarrow> nat \<Rightarrow> row list \<Rightarrow> row list" where
  "sort_by_channel srt k img_arr = map ((!) img_arr) (srt (map (chan k) img_arr))"

fun split_into_buckets ::
  "(rat list \<Rightarrow> nat list) \<Rightarrow> image \<Rightarrow> adtype \<Rightarrow> row list \<Rightarrow> nat \<Rightarrow> error + image" where
  "split_into_buckets srt img dt img_arr 0 =
     (if img_arr = [] then Inr img else median_cut_quantize_helper img dt img_arr)"
| "split_into_buckets srt img dt img_arr (Suc depth) =
     (if img_arr = [] then Inr img
      else
        let sorted_arr = sort_by_channel srt (space_with_highest_range img_arr) img_arr;
            median_index = length sorted_arr div 2
        in case split_into_buckets srt img dt (take median_index sorted_arr) depth of
             Inl e \<Rightarrow> Inl e
           | Inr img' \<Rightarrow> split_into_buckets srt img' dt (drop median_index sorted_arr) depth)"

subsection \<open>\<^verbatim>\<open>_median_cut_quantize\<close> and \<^verbatim>\<open>aggregate_colors\<close>\<close>

text \<open>
  \<^verbatim>\<open>sample_img = self.image.copy()\<close> is a new array with the same contents; as a value
  it is the image itself (the store, where the copy matters, follows below).
\<close>

definition median_cut_quantize :: "(rat list \<Rightarrow> nat list) \<Rightarrow> image \<Rightarrow> nat \<Rightarrow> error + image" where
  "median_cut_quantize srt self_image n_colors =
     (let sample_img = self_image;
          (dt, flattened) = flattened_img_array sample_img
      in split_into_buckets srt sample_img dt flattened n_colors)"

function floor_log2 :: "nat \<Rightarrow> nat" where
  "floor_log2 n = (if n < 2 then 0 else Suc (floor_log2 (n div 2)))"
  by pat_completeness auto
termination
  by (relation "measure (\<lambda>n. n)") auto

declare floor_log2.simps [simp del]

text \<open>
  \<^verbatim>\<open>int(np.log2(n_colors))\<close>. numpy takes a Python integer as a 64-bit integer; one
  that does not fit, below \<open>-2^63\<close> or from \<open>2^64\<close>, becomes an object and
  \<^verbatim>\<open>np.log2\<close> raises \<^verbatim>\<open>TypeError\<close>. \<^verbatim>\<open>np.log2(0)\<close> is \<open>-inf\<close> and \<^verbatim>\<open>int\<close> raises
  \<^verbatim>\<open>OverflowError\<close> on it; the logarithm of a negative number is \<open>nan\<close>, on which
  \<^verbatim>\<open>int\<close> raises \<^verbatim>\<open>ValueError\<close>.

  The logarithm is a 64-bit float. Below \<open>2^32\<close> its integer part is the exact
  \<open>floor (log2 n)\<close>: the logarithm of \<open>2^k - 1\<close> is more than \<open>2^-33\<close> below \<open>k\<close>, tens
  of thousands of times the spacing of the floats there, and the logarithm of a power of
  two is exact. Further up the rounding decides (\<open>2^49 - 1\<close> gives 49), and what numpy
  returns there is the parameter \<open>float_log2\<close> of the model.
\<close>

definition n_color_param :: "(int \<Rightarrow> nat) \<Rightarrow> int \<Rightarrow> error + nat" where
  "n_color_param float_log2 n_colors =
     (if n_colors < - (2 ^ 63) \<or> 2 ^ 64 \<le> n_colors then Inl TypeError
      else if n_colors = 0 then Inl OverflowError
      else if n_colors < 0 then Inl (ValueError ''cannot convert float NaN to integer'')
      else if n_colors < 2 ^ 32 then Inr (floor_log2 (nat n_colors))
      else Inr (float_log2 n_colors))"

definition invalid_method_message :: string where
  "invalid_method_message =
     ''Invalid method. Available methods: '' @ [CHR 0x27] @ ''kmeans'' @ [CHR 0x27] @ '', ''
       @ [CHR 0x27] @ ''median_cut'' @ [CHR 0x27]"

definition aggregate_colors ::
  "(image \<Rightarrow> int \<Rightarrow> error + image) \<Rightarrow> (int \<Rightarrow> nat) \<Rightarrow> (rat list \<Rightarrow> nat list) \<Rightarrow>
   image \<Rightarrow> string \<Rightarrow> int \<Rightarrow> error + image" where
  "aggregate_colors kmeans_clustering float_log2 srt self_image method n_colors =
     (if method = ''kmeans'' then kmeans_clustering self_image n_colors
      else if method = ''median_cut'' then
        (case n_color_param float_log2 n_colors of
           Inl e \<Rightarrow> Inl e
         | Inr depth \<Rightarrow> median_cut_quantize srt self_image depth)
      else Inl (ValueError invalid_method_message))"

subsection \<open>What numpy promises of \<^verbatim>\<open>argsort\<close>, and one sort that keeps it\<close>

definition argsort_ok :: "(rat list \<Rightarrow> nat list) \<Rightarrow> bool" where
  "argsort_ok srt \<longleftrightarrow>
     (\<forall>xs. mset (srt xs) = mset [0..<length xs] \<and> sorted (map ((!) xs) (srt xs)))"

text \<open>An insertion sort of the indices: among equal keys the earlier index comes first.\<close>

definition stable_argsort :: "rat list \<Rightarrow> nat list" where
  "stable_argsort xs = map snd (sort_key fst (zip xs [0..<length xs]))"

text \<open>Another sort that keeps the promise: among equal keys the later index comes first.\<close>

definition tie_reversing_argsort :: "rat list \<Rightarrow> nat list" where
  "tie_reversing_argsort xs = rev (map snd (sort_key (\<lambda>p. - fst p) (zip xs [0..<length xs])))"

subsection \<open>The buckets of the recursion\<close>

text \<open>
  The buckets that \<^verbatim>\<open>_split_into_buckets\<close> reaches with \<open>depth\<close> splits, in the
  order of the calls; an empty bucket returns at once and is left out. Lemma
  \<open>split_into_buckets_eq_write_buckets\<close> shows that the function does nothing else than
  to call the helper on each of them in turn, and lemma \<open>buckets_add\<close> that the buckets
  after \<open>j + k\<close> splits are those of the buckets after \<open>j\<close> splits, split \<open>k\<close> times
  more: \<open>buckets srt img_arr j\<close> is level \<open>j\<close> of every deeper recursion.
\<close>

fun buckets :: "(rat list \<Rightarrow> nat list) \<Rightarrow> row list \<Rightarrow> nat \<Rightarrow> row list list" where
  "buckets srt img_arr 0 = (if img_arr = [] then [] else [img_arr])"
| "buckets srt img_arr (Suc depth) =
     (if img_arr = [] then []
      else
        let sorted_arr = sort_by_channel srt (space_with_highest_range img_arr) img_arr;
            median_index = length sorted_arr div 2
        in buckets srt (take median_index sorted_arr) depth
           @ buckets srt (drop median_index sorted_arr) depth)"

fun write_buckets :: "image \<Rightarrow> adtype \<Rightarrow> row list list \<Rightarrow> error + image" where
  "write_buckets img dt [] = Inr img"
| "write_buckets img dt (b # bs) =
     (case median_cut_quantize_helper img dt b of
        Inl e \<Rightarrow> Inl e
      | Inr img' \<Rightarrow> write_buckets img' dt bs)"

definition color :: "row \<Rightarrow> rat pixel" where
  "color d = (chan0 d, chan1 d, chan2 d)"

definition one_color :: "row list \<Rightarrow> bool" where
  "one_color b \<longleftrightarrow> (\<forall>d\<in>set b. \<forall>e\<in>set b. color d = color e)"

fun distinct_colors :: "image \<Rightarrow> nat" where
  "distinct_colors (UInt8Image g) = length (remdups (concat g))"
| "distinct_colors (Float32Image g) = length (remdups (concat g))"

fun pixel_count :: "image \<Rightarrow> nat" where
  "pixel_count (UInt8Image g) = length (concat g)"
| "pixel_count (Float32Image g) = length (concat g)"

fun shape :: "image \<Rightarrow> nat list" where
  "shape (UInt8Image g) = map length g"
| "shape (Float32Image g) = map length g"

fun is_uint8 :: "image \<Rightarrow> bool" where
  "is_uint8 (UInt8Image g) = True"
| "is_uint8 (Float32Image g) = False"

subsection \<open>The store: \<^verbatim>\<open>self.image\<close> and the copy\<close>

text \<open>
  To say that the input is not changed, arrays are objects in a store and
  \<^verbatim>\<open>self.image\<close> is a reference. A store is the list of its arrays, an address is a
  position in it, \<^verbatim>\<open>.copy()\<close> appends a new array, and every write of the helper
  goes to the address it was given as \<^verbatim>\<open>img\<close>. A call returns the store it leaves
  and, when it raised, the error.
\<close>

type_synonym heap = "image list"

record color_reducer =
  image_path :: string
  image_ref :: nat

definition set_pixel_at ::
  "heap \<Rightarrow> nat \<Rightarrow> adtype \<Rightarrow> nat \<Rightarrow> nat \<Rightarrow> rat pixel \<Rightarrow> heap \<times> error option" where
  "set_pixel_at h img dt ri ci avg =
     (case set_pixel (h ! img) dt ri ci avg of
        Inl e \<Rightarrow> (h, Some e)
      | Inr arr \<Rightarrow> (h[img := arr], None))"

fun write_rows_at ::
  "heap \<Rightarrow> nat \<Rightarrow> adtype \<Rightarrow> rat pixel \<Rightarrow> row list \<Rightarrow> heap \<times> error option" where
  "write_rows_at h img dt avg [] = (h, None)"
| "write_rows_at h img dt avg (d # ds) =
     (case set_pixel_at h img dt (rindex d) (cindex d) avg of
        (h', Some e) \<Rightarrow> (h', Some e)
      | (h', None) \<Rightarrow> write_rows_at h' img dt avg ds)"

definition median_cut_quantize_helper_at ::
  "heap \<Rightarrow> nat \<Rightarrow> adtype \<Rightarrow> row list \<Rightarrow> heap \<times> error option" where
  "median_cut_quantize_helper_at h img dt img_arr =
     write_rows_at h img dt (bucket_average img_arr) img_arr"

fun split_into_buckets_at ::
  "(rat list \<Rightarrow> nat list) \<Rightarrow> heap \<Rightarrow> nat \<Rightarrow> adtype \<Rightarrow> row list \<Rightarrow> nat \<Rightarrow> heap \<times> error option" where
  "split_into_buckets_at srt h img dt img_arr 0 =
     (if img_arr = [] then (h, None) else median_cut_quantize_helper_at h img dt img_arr)"
| "split_into_buckets_at srt h img dt img_arr (Suc depth) =
     (if img_arr = [] then (h, None)
      else
        let sorted_arr = sort_by_channel srt (space_with_highest_range img_arr) img_arr;
            median_index = length sorted_arr div 2
        in case split_into_buckets_at srt h img dt (take median_index sorted_arr) depth of
             (h', Some e) \<Rightarrow> (h', Some e)
           | (h', None) \<Rightarrow> split_into_buckets_at srt h' img dt (drop median_index sorted_arr) depth)"

definition median_cut_quantize_at ::
  "(rat list \<Rightarrow> nat list) \<Rightarrow> color_reducer \<Rightarrow> heap \<Rightarrow> nat \<Rightarrow> heap \<times> (error + nat)" where
  "median_cut_quantize_at srt self h n_colors =
     (let sample_img = length h;
          h1 = h @ [h ! image_ref self];
          (dt, flattened) = flattened_img_array (h1 ! sample_img)
      in case split_into_buckets_at srt h1 sample_img dt flattened n_colors of
           (h2, Some e) \<Rightarrow> (h2, Inl e)
         | (h2, None) \<Rightarrow> (h2, Inr sample_img))"

text \<open>\<open>only_at img h h'\<close>: the store \<open>h'\<close> differs from \<open>h\<close> at most at the address \<open>img\<close>.\<close>

definition only_at :: "nat \<Rightarrow> heap \<Rightarrow> heap \<Rightarrow> bool" where
  "only_at img h h' \<longleftrightarrow> length h' = length h \<and> (\<forall>a. a \<noteq> img \<longrightarrow> h' ! a = h ! a)"

section \<open>Lemmas\<close>

subsection \<open>The recursion writes the buckets one after the other\<close>

lemma write_buckets_append:
  "write_buckets img dt (bs @ cs) =
     (case write_buckets img dt bs of Inl e \<Rightarrow> Inl e | Inr img' \<Rightarrow> write_buckets img' dt cs)"
  by (induction bs arbitrary: img) (auto split: sum.splits)

lemma split_into_buckets_eq_write_buckets:
  "split_into_buckets srt img dt img_arr depth = write_buckets img dt (buckets srt img_arr depth)"
proof (induction depth arbitrary: img img_arr)
  case 0
  show ?case by (simp split: sum.splits)
next
  case (Suc depth)
  show ?case
    by (simp add: Let_def write_buckets_append Suc.IH split: sum.splits)
qed

lemma buckets_Nil: "buckets srt [] depth = []"
  by (cases depth) simp_all

lemma buckets_add:
  "buckets srt img_arr (j + k) = concat (map (\<lambda>b. buckets srt b k) (buckets srt img_arr j))"
proof (induction j arbitrary: img_arr)
  case 0
  show ?case by (simp add: buckets_Nil)
next
  case (Suc j)
  show ?case by (simp add: Let_def Suc.IH buckets_Nil)
qed

lemma buckets_nonempty: "b \<in> set (buckets srt img_arr depth) \<Longrightarrow> b \<noteq> []"
  by (induction depth arbitrary: img_arr) (auto simp: Let_def split: if_splits)

lemma length_buckets: "length (buckets srt img_arr depth) \<le> 2 ^ depth"
proof (induction depth arbitrary: img_arr)
  case 0
  show ?case by simp
next
  case (Suc depth)
  let ?s = "sort_by_channel srt (space_with_highest_range img_arr) img_arr"
  let ?m = "length ?s div 2"
  have "length (buckets srt (take ?m ?s) depth) \<le> 2 ^ depth"
       "length (buckets srt (drop ?m ?s) depth) \<le> 2 ^ depth"
    using Suc.IH by blast+
  then show ?case
    by (simp add: Let_def)
qed

lemma split_into_buckets_0_any_sort:
  "split_into_buckets srt img dt img_arr 0 = split_into_buckets srt' img dt img_arr 0"
  by simp

lemma median_cut_quantize_0_any_sort:
  "median_cut_quantize srt img 0 = median_cut_quantize srt' img 0"
  by (simp add: median_cut_quantize_def case_prod_unfold)

subsection \<open>Sorting the indices\<close>

lemma argsort_ok_mset: "argsort_ok srt \<Longrightarrow> mset (srt xs) = mset [0..<length xs]"
  by (simp add: argsort_ok_def)

lemma argsort_ok_sorted: "argsort_ok srt \<Longrightarrow> sorted (map ((!) xs) (srt xs))"
  by (simp add: argsort_ok_def)

lemma argsort_ok_set: "argsort_ok srt \<Longrightarrow> set (srt xs) = {0..<length xs}"
  using argsort_ok_mset [of srt xs] by (metis set_mset_mset set_upt)

lemma mset_sort_by_channel:
  assumes "argsort_ok srt"
  shows "mset (sort_by_channel srt k img_arr) = mset img_arr"
proof -
  have "mset (map ((!) img_arr) (srt (map (chan k) img_arr)))
      = image_mset ((!) img_arr) (mset (srt (map (chan k) img_arr)))"
    by simp
  also have "\<dots> = image_mset ((!) img_arr) (mset [0..<length img_arr])"
    using argsort_ok_mset [OF assms, of "map (chan k) img_arr"] by simp
  also have "\<dots> = mset (map ((!) img_arr) [0..<length img_arr])"
    by simp
  also have "\<dots> = mset img_arr"
    by (simp add: map_nth)
  finally show ?thesis
    by (simp add: sort_by_channel_def)
qed

lemma length_sort_by_channel:
  "argsort_ok srt \<Longrightarrow> length (sort_by_channel srt k img_arr) = length img_arr"
  using mset_sort_by_channel [of srt k img_arr] by (metis size_mset)

lemma sorted_sort_by_channel:
  assumes "argsort_ok srt"
  shows "sorted (map (chan k) (sort_by_channel srt k img_arr))"
proof -
  let ?idx = "srt (map (chan k) img_arr)"
  have "\<forall>i\<in>set ?idx. i < length img_arr"
    using argsort_ok_set [OF assms, of "map (chan k) img_arr"] by simp
  then have "map (chan k) (map ((!) img_arr) ?idx) = map ((!) (map (chan k) img_arr)) ?idx"
    by simp
  moreover have "sorted (map ((!) (map (chan k) img_arr)) ?idx)"
    by (rule argsort_ok_sorted [OF assms])
  ultimately show ?thesis
    unfolding sort_by_channel_def by (simp only:)
qed

lemma zip_upt_nth: "(x, i) \<in> set (zip xs [0..<length xs]) \<Longrightarrow> i < length xs \<and> x = xs ! i"
  by (auto simp: set_zip)

lemma argsort_by_key:
  assumes "set zs \<subseteq> set (zip xs [0..<length xs])"
  shows "map ((!) xs) (map snd zs) = map fst zs"
  using assms by (induction zs) (auto dest: zip_upt_nth)

lemma argsort_ok_stable_argsort: "argsort_ok stable_argsort"
  unfolding argsort_ok_def
proof (intro allI conjI)
  fix xs :: "rat list"
  let ?zs = "zip xs [0..<length xs]"
  have "mset (map snd (sort_key fst ?zs)) = mset (map snd ?zs)"
    by (metis mset_map mset_sort)
  then show "mset (stable_argsort xs) = mset [0..<length xs]"
    by (simp add: stable_argsort_def)
  have "map ((!) xs) (map snd (sort_key fst ?zs)) = map fst (sort_key fst ?zs)"
    by (rule argsort_by_key) simp
  then show "sorted (map ((!) xs) (stable_argsort xs))"
    by (simp only: stable_argsort_def sorted_sort_key)
qed

lemma sorted_rev_of_neg:
  fixes ys :: "rat list"
  shows "sorted (map uminus ys) \<Longrightarrow> sorted (rev ys)"
  by (induction ys) (auto simp: sorted_append)

lemma argsort_ok_tie_reversing_argsort: "argsort_ok tie_reversing_argsort"
  unfolding argsort_ok_def
proof (intro allI conjI)
  fix xs :: "rat list"
  let ?zs = "zip xs [0..<length xs]"
  let ?s = "sort_key (\<lambda>p. - fst p) ?zs"
  have "mset (map snd ?s) = mset (map snd ?zs)"
    by (metis mset_map mset_sort)
  then show "mset (tie_reversing_argsort xs) = mset [0..<length xs]"
    by (simp add: tie_reversing_argsort_def)
  have e: "map ((!) xs) (map snd ?s) = map fst ?s"
    by (rule argsort_by_key) simp
  have "sorted (map (\<lambda>p. - fst p) ?s)"
    by (rule sorted_sort_key)
  then have "sorted (map uminus (map fst ?s))"
    by (simp add: comp_def)
  then have "sorted (rev (map fst ?s))"
    by (rule sorted_rev_of_neg)
  then show "sorted (map ((!) xs) (tie_reversing_argsort xs))"
    by (simp only: tie_reversing_argsort_def rev_map [symmetric] e)
qed

lemma filter_key_distinct:
  "distinct (map f zs) \<Longrightarrow> k \<in> set zs \<Longrightarrow> filter (\<lambda>x. f k = f x) zs = [k]"
proof (induction zs)
  case Nil
  then show ?case by simp
next
  case (Cons z zs)
  show ?case
  proof (cases "k = z")
    case True
    have "filter (\<lambda>x. f z = f x) zs = []"
      using Cons.prems(1) by (auto simp: filter_empty_conv)
    with True show ?thesis by simp
  next
    case False
    from False Cons.prems(2) have ks: "k \<in> set zs" by simp
    from Cons.prems(1) have "f z \<notin> f ` set zs" by simp
    with ks have "f k \<noteq> f z" by (metis imageI)
    with ks Cons show ?thesis by simp
  qed
qed

lemma sort_by_channel_distinct:
  assumes "argsort_ok srt" and "distinct (map (chan k) img_arr)"
  shows "sort_by_channel srt k img_arr = sort_key (chan k) img_arr"
proof (rule properties_for_sort_key [symmetric])
  let ?ys = "sort_by_channel srt k img_arr"
  show m: "mset ?ys = mset img_arr"
    by (rule mset_sort_by_channel [OF assms(1)])
  show "sorted (map (chan k) ?ys)"
    by (rule sorted_sort_by_channel [OF assms(1)])
  have "mset (map (chan k) ?ys) = mset (map (chan k) img_arr)"
    using m by (metis mset_map)
  then have dy: "distinct (map (chan k) ?ys)"
    using assms(2) by (metis mset_eq_imp_distinct_iff)
  fix d assume d: "d \<in> set ?ys"
  then have "d \<in> set img_arr" using m by (metis set_mset_mset)
  then have "filter (\<lambda>x. chan k d = chan k x) img_arr = [d]"
    by (rule filter_key_distinct [OF assms(2)])
  moreover have "filter (\<lambda>x. chan k d = chan k x) ?ys = [d]"
    by (rule filter_key_distinct [OF dy d])
  ultimately show "filter (\<lambda>x. chan k d = chan k x) ?ys = filter (\<lambda>x. chan k d = chan k x) img_arr"
    by simp
qed

subsection \<open>The buckets hold the rows of the array\<close>

lemma mset_concat_buckets:
  "argsort_ok srt \<Longrightarrow> mset (concat (buckets srt img_arr depth)) = mset img_arr"
proof (induction depth arbitrary: img_arr)
  case 0
  show ?case by simp
next
  case (Suc depth)
  let ?s = "sort_by_channel srt (space_with_highest_range img_arr) img_arr"
  let ?m = "length ?s div 2"
  have "mset (take ?m ?s) + mset (drop ?m ?s) = mset ?s"
    by (metis append_take_drop_id mset_append)
  with Suc show ?case
    by (simp add: Let_def mset_sort_by_channel)
qed

lemma set_concat_buckets:
  "argsort_ok srt \<Longrightarrow> set (concat (buckets srt img_arr depth)) = set img_arr"
  using mset_concat_buckets [of srt img_arr depth] by (metis set_mset_mset)

lemma buckets_eq_Nil:
  assumes "argsort_ok srt"
  shows "buckets srt img_arr depth = [] \<longleftrightarrow> img_arr = []"
proof
  assume "buckets srt img_arr depth = []"
  then have "mset img_arr = {#}"
    using mset_concat_buckets [OF assms, of img_arr depth] by simp
  then show "img_arr = []" by simp
next
  assume "img_arr = []"
  then show "buckets srt img_arr depth = []" by (cases depth) simp_all
qed

lemma median_cut_depth1_distinct:
  assumes "argsort_ok srt"
    and "distinct (map (chan (space_with_highest_range (snd (flattened_img_array img))))
                       (snd (flattened_img_array img)))"
  shows "median_cut_quantize srt img (Suc 0) = median_cut_quantize stable_argsort img (Suc 0)"
proof -
  let ?arr = "snd (flattened_img_array img)"
  let ?k = "space_with_highest_range ?arr"
  have "sort_by_channel srt ?k ?arr = sort_key (chan ?k) ?arr"
    by (rule sort_by_channel_distinct [OF assms])
  moreover have "sort_by_channel stable_argsort ?k ?arr = sort_key (chan ?k) ?arr"
    by (rule sort_by_channel_distinct [OF argsort_ok_stable_argsort assms(2)])
  ultimately have "sort_by_channel srt ?k ?arr = sort_by_channel stable_argsort ?k ?arr"
    by simp
  then have "buckets srt ?arr (Suc 0) = buckets stable_argsort ?arr (Suc 0)"
    by (simp add: Let_def)
  then show ?thesis
    by (simp only: median_cut_quantize_def case_prod_unfold Let_def
          split_into_buckets_eq_write_buckets)
qed

subsection \<open>The flattened array\<close>

lemma in_set_flatten_rows:
  "d \<in> set (flatten_rows conv g) \<longleftrightarrow>
     (\<exists>ri ci. ri < length g \<and> ci < length (g ! ri) \<and> d = mk_row conv ri ci (g ! ri ! ci))"
proof
  assume "d \<in> set (flatten_rows conv g)"
  then obtain p q where p: "p \<in> set (enumerate 0 g)" and q: "q \<in> set (enumerate 0 (snd p))"
    and d: "d = mk_row conv (fst p) (fst q) (snd q)"
    by (auto simp: flatten_rows_def)
  from p have "fst p < length g" "snd p = g ! fst p"
    by (simp_all add: in_set_enumerate_eq)
  moreover from q have "fst q < length (snd p)" "snd q = snd p ! fst q"
    by (simp_all add: in_set_enumerate_eq)
  ultimately show "\<exists>ri ci. ri < length g \<and> ci < length (g ! ri) \<and> d = mk_row conv ri ci (g ! ri ! ci)"
    using d by auto
next
  assume "\<exists>ri ci. ri < length g \<and> ci < length (g ! ri) \<and> d = mk_row conv ri ci (g ! ri ! ci)"
  then obtain ri ci where r: "ri < length g" and c: "ci < length (g ! ri)"
    and d: "d = mk_row conv ri ci (g ! ri ! ci)"
    by blast
  have "(ri, g ! ri) \<in> set (enumerate 0 g)"
    using r by (simp add: in_set_enumerate_eq)
  moreover have "(ci, g ! ri ! ci) \<in> set (enumerate 0 (g ! ri))"
    using c by (simp add: in_set_enumerate_eq)
  ultimately show "d \<in> set (flatten_rows conv g)"
    unfolding flatten_rows_def using d by force
qed

lemma flatten_rows_in_grid: "d \<in> set (flatten_rows conv g) \<Longrightarrow> in_grid g (coord d)"
  by (auto simp: in_set_flatten_rows in_grid_def coord_def mk_row_def)

lemma flatten_rows_chan:
  "d \<in> set (flatten_rows conv g) \<Longrightarrow>
     chan0 d = conv (fst (g ! rindex d ! cindex d)) \<and>
     chan1 d = conv (fst (snd (g ! rindex d ! cindex d))) \<and>
     chan2 d = conv (snd (snd (g ! rindex d ! cindex d)))"
  by (auto simp: in_set_flatten_rows mk_row_def)

lemma flatten_rows_covers: "in_grid g rc \<Longrightarrow> rc \<in> coord ` set (flatten_rows conv g)"
proof -
  assume "in_grid g rc"
  then have "mk_row conv (fst rc) (snd rc) (g ! fst rc ! snd rc) \<in> set (flatten_rows conv g)"
    by (auto simp: in_set_flatten_rows in_grid_def)
  moreover have "coord (mk_row conv (fst rc) (snd rc) (g ! fst rc ! snd rc)) = rc"
    by (simp add: coord_def mk_row_def)
  ultimately show ?thesis by (metis imageI)
qed

lemma coord_flatten_rows_aux:
  "map coord (concat (map (\<lambda>(ri, rows). map (\<lambda>(ci, color). mk_row conv ri ci color) (enumerate 0 rows))
                 (enumerate n g)))
   = concat (map (\<lambda>(ri, rows). map (Pair ri) [0..<length rows]) (enumerate n g))"
proof (induction g arbitrary: n)
  case Nil
  show ?case by simp
next
  case (Cons rows g)
  have "map coord (map (\<lambda>(ci, color). mk_row conv n ci color) (enumerate 0 rows))
      = map (Pair n) (map fst (enumerate 0 rows))"
    unfolding map_map
    by (rule map_cong [OF refl]) (simp add: coord_def mk_row_def case_prod_unfold)
  then have eq: "map coord (map (\<lambda>(ci, color). mk_row conv n ci color) (enumerate 0 rows))
      = map (Pair n) [0..<length rows]"
    by (simp only: map_fst_enumerate add_0)
  show ?case
    by (simp only: enumerate_simps list.map concat.simps map_append prod.case eq Cons.IH)
qed

lemma coords_aux_ge:
  "p \<in> set (concat (map (\<lambda>(ri, rows). map (Pair ri) [0..<length rows]) (enumerate n g)))
   \<Longrightarrow> n \<le> fst p"
  by (auto simp: in_set_enumerate_eq)

lemma distinct_coords_aux:
  "distinct (concat (map (\<lambda>(ri, rows). map (Pair ri) [0..<length rows]) (enumerate n g)))"
proof (induction g arbitrary: n)
  case Nil
  show ?case by simp
next
  case (Cons rows g)
  let ?rest = "concat (map (\<lambda>(ri, rows). map (Pair ri) [0..<length rows]) (enumerate (Suc n) g))"
  have "distinct (map (Pair n) [0..<length rows])"
    by (simp add: distinct_map inj_on_def)
  moreover have "distinct ?rest"
    by (rule Cons.IH)
  moreover have "set (map (Pair n) [0..<length rows]) \<inter> set ?rest = {}"
    using coords_aux_ge [of _ "Suc n" g] by fastforce
  ultimately show ?case
    by (simp only: enumerate_simps list.map concat.simps prod.case distinct_append)
qed

lemma distinct_coord_flatten_rows: "distinct (map coord (flatten_rows conv g))"
  by (simp add: flatten_rows_def coord_flatten_rows_aux distinct_coords_aux)

lemma length_flatten_rows: "length (flatten_rows conv g) = length (concat g)"
proof -
  have "length (concat (map (\<lambda>(ri, rows). map (\<lambda>(ci, color). mk_row conv ri ci color) (enumerate 0 rows))
                 (enumerate n g))) = length (concat g)" for n
    by (induction g arbitrary: n) simp_all
  then show ?thesis by (simp add: flatten_rows_def)
qed

lemma flatten_rows_eq_Nil: "flatten_rows conv g = [] \<longleftrightarrow> concat g = []"
proof
  assume e: "flatten_rows conv g = []"
  show "concat g = []"
  proof (rule ccontr)
    assume "concat g \<noteq> []"
    then obtain xs where "xs \<in> set g" "xs \<noteq> []" by auto
    then obtain ri where "ri < length g" "0 < length (g ! ri)"
      by (metis in_set_conv_nth length_greater_0_conv)
    then have "mk_row conv ri 0 (g ! ri ! 0) \<in> set (flatten_rows conv g)"
      unfolding in_set_flatten_rows by blast
    then show False using e by simp
  qed
next
  assume e: "concat g = []"
  show "flatten_rows conv g = []"
  proof (rule ccontr)
    assume "flatten_rows conv g \<noteq> []"
    then obtain d where "d \<in> set (flatten_rows conv g)"
      by (meson last_in_set)
    then obtain ri ci where "ri < length g" "ci < length (g ! ri)"
      unfolding in_set_flatten_rows by blast
    then have "g ! ri \<in> set g" "g ! ri \<noteq> []" by auto
    then show False using e by auto
  qed
qed

lemma pixel_count_flattened: "length (snd (flattened_img_array img)) = pixel_count img"
  by (cases img) (simp_all add: byte_rows_def length_flatten_rows)

lemma distinct_coord_flattened: "distinct (map coord (snd (flattened_img_array img)))"
  by (cases img) (simp_all add: byte_rows_def distinct_coord_flatten_rows)

lemma distinct_coord_buckets:
  assumes "argsort_ok srt" and "distinct (map coord img_arr)"
  shows "distinct (map coord (concat (buckets srt img_arr depth)))"
proof -
  have "mset (map coord (concat (buckets srt img_arr depth))) = mset (map coord img_arr)"
    using mset_concat_buckets [OF assms(1), of img_arr depth] by (metis mset_map)
  then show ?thesis
    using assms(2) by (metis mset_eq_imp_distinct_iff)
qed

subsection \<open>Writing into an image of bytes\<close>

lemma in_grid_shape: "map length g' = map length g \<Longrightarrow> in_grid g' rc = in_grid g rc"
proof -
  assume a: "map length g' = map length g"
  then have l: "length g' = length g" by (metis length_map)
  have "fst rc < length g \<Longrightarrow> length (g' ! fst rc) = length (g ! fst rc)"
    using a l by (metis nth_map)
  then show ?thesis using l by (auto simp: in_grid_def)
qed

lemma shape_grid_update: "map length (g[ri := (g ! ri)[ci := v]]) = map length g"
  by (cases "ri < length g") (simp_all add: map_update list_update_same_conv list_update_beyond)

lemma nth_grid_update:
  "in_grid g (r, c) \<Longrightarrow>
   g[ri := (g ! ri)[ci := v]] ! r ! c = (if (r, c) = (ri, ci) then v else g ! r ! c)"
  by (cases "r = ri") (auto simp: in_grid_def nth_list_update)

lemma set_concat_grid:
  "x \<in> set (concat g) \<Longrightarrow> \<exists>rc. in_grid g rc \<and> x = g ! fst rc ! snd rc"
proof -
  assume "x \<in> set (concat g)"
  then obtain xs where "xs \<in> set g" "x \<in> set xs" by auto
  then obtain r c where "r < length g" "xs = g ! r" "c < length xs" "x = xs ! c"
    by (metis in_set_conv_nth)
  then have "in_grid g (r, c) \<and> x = g ! fst (r, c) ! snd (r, c)"
    by (simp add: in_grid_def)
  then show ?thesis by blast
qed

lemma grid_eqI:
  assumes sh: "map length a = map length b"
    and v: "\<forall>rc. in_grid b rc \<longrightarrow> a ! fst rc ! snd rc = b ! fst rc ! snd rc"
  shows "a = b"
proof (rule nth_equalityI)
  show l: "length a = length b" using sh by (metis length_map)
  fix i assume i: "i < length a"
  show "a ! i = b ! i"
  proof (rule nth_equalityI)
    show "length (a ! i) = length (b ! i)"
      using sh i l by (metis nth_map)
    fix j assume "j < length (a ! i)"
    then have "in_grid a (i, j)" using i by (simp add: in_grid_def)
    then have "in_grid b (i, j)" by (simp add: in_grid_shape [OF sh])
    with v show "a ! i ! j = b ! i ! j" by fastforce
  qed
qed

lemma write_rows_uint8:
  "\<forall>d\<in>set ds. in_grid g (coord d) \<Longrightarrow>
   \<exists>g'. write_rows (UInt8Image g) Int64 avg ds = Inr (UInt8Image g')
      \<and> map length g' = map length g
      \<and> (\<forall>rc. in_grid g rc \<longrightarrow>
             g' ! fst rc ! snd rc = (if rc \<in> coord ` set ds then cast_pixel avg else g ! fst rc ! snd rc))"
proof (induction ds arbitrary: g)
  case Nil
  show ?case by simp
next
  case (Cons d ds)
  let ?g1 = "g[rindex d := (g ! rindex d)[cindex d := cast_pixel avg]]"
  have d: "in_grid g (rindex d, cindex d)"
    using Cons.prems by (simp add: coord_def)
  have sh: "map length ?g1 = map length g"
    by (rule shape_grid_update)
  have "\<forall>d\<in>set ds. in_grid ?g1 (coord d)"
    using Cons.prems by (simp add: in_grid_shape [OF sh])
  from Cons.IH [OF this] obtain g' where
    w: "write_rows (UInt8Image ?g1) Int64 avg ds = Inr (UInt8Image g')"
    and s: "map length g' = map length ?g1"
    and v: "\<forall>rc. in_grid ?g1 rc \<longrightarrow>
             g' ! fst rc ! snd rc = (if rc \<in> coord ` set ds then cast_pixel avg else ?g1 ! fst rc ! snd rc)"
    by blast
  have "write_rows (UInt8Image g) Int64 avg (d # ds) = Inr (UInt8Image g')"
    using w d by simp
  moreover have "map length g' = map length g"
    using s sh by simp
  moreover have "\<forall>rc. in_grid g rc \<longrightarrow>
       g' ! fst rc ! snd rc = (if rc \<in> coord ` set (d # ds) then cast_pixel avg else g ! fst rc ! snd rc)"
  proof (intro allI impI)
    fix rc :: "nat \<times> nat"
    assume g: "in_grid g rc"
    then have "in_grid ?g1 rc" by (simp add: in_grid_shape [OF sh])
    with v have e: "g' ! fst rc ! snd rc =
        (if rc \<in> coord ` set ds then cast_pixel avg else ?g1 ! fst rc ! snd rc)"
      by blast
    have "?g1 ! fst rc ! snd rc = (if rc = (rindex d, cindex d) then cast_pixel avg else g ! fst rc ! snd rc)"
      using nth_grid_update [of g "fst rc" "snd rc" "rindex d" "cindex d" "cast_pixel avg"] g
      by simp
    with e show "g' ! fst rc ! snd rc =
        (if rc \<in> coord ` set (d # ds) then cast_pixel avg else g ! fst rc ! snd rc)"
      by (auto simp: coord_def)
  qed
  ultimately show ?case by blast
qed

lemma write_buckets_uint8:
  "\<forall>d\<in>set (concat bs). in_grid g (coord d) \<Longrightarrow> distinct (map coord (concat bs)) \<Longrightarrow>
   \<exists>g'. write_buckets (UInt8Image g) Int64 bs = Inr (UInt8Image g')
      \<and> map length g' = map length g
      \<and> (\<forall>b\<in>set bs. \<forall>d\<in>set b. g' ! rindex d ! cindex d = cast_pixel (bucket_average b))
      \<and> (\<forall>rc. in_grid g rc \<longrightarrow> rc \<notin> coord ` set (concat bs) \<longrightarrow>
             g' ! fst rc ! snd rc = g ! fst rc ! snd rc)"
proof (induction bs arbitrary: g)
  case Nil
  show ?case by simp
next
  case (Cons b bs)
  have "\<forall>d\<in>set b. in_grid g (coord d)"
    using Cons.prems(1) by simp
  from write_rows_uint8 [OF this, of "bucket_average b"] obtain g1 where
    w1: "write_rows (UInt8Image g) Int64 (bucket_average b) b = Inr (UInt8Image g1)"
    and s1: "map length g1 = map length g"
    and v1: "\<forall>rc. in_grid g rc \<longrightarrow>
             g1 ! fst rc ! snd rc =
               (if rc \<in> coord ` set b then cast_pixel (bucket_average b) else g ! fst rc ! snd rc)"
    by blast
  have p1: "\<forall>d\<in>set (concat bs). in_grid g1 (coord d)"
    using Cons.prems(1) by (simp add: in_grid_shape [OF s1])
  have p2: "distinct (map coord (concat bs))"
    using Cons.prems(2) by simp
  from Cons.IH [OF p1 p2] obtain g' where
    w: "write_buckets (UInt8Image g1) Int64 bs = Inr (UInt8Image g')"
    and s: "map length g' = map length g1"
    and v: "\<forall>b\<in>set bs. \<forall>d\<in>set b. g' ! rindex d ! cindex d = cast_pixel (bucket_average b)"
    and u: "\<forall>rc. in_grid g1 rc \<longrightarrow> rc \<notin> coord ` set (concat bs) \<longrightarrow>
             g' ! fst rc ! snd rc = g1 ! fst rc ! snd rc"
    by blast
  have disj: "coord ` set b \<inter> coord ` set (concat bs) = {}"
    using Cons.prems(2) by auto
  have "write_buckets (UInt8Image g) Int64 (b # bs) = Inr (UInt8Image g')"
    using w1 w by (simp add: median_cut_quantize_helper_def)
  moreover have "map length g' = map length g"
    using s s1 by simp
  moreover have "\<forall>d\<in>set b. g' ! rindex d ! cindex d = cast_pixel (bucket_average b)"
  proof
    fix d assume d: "d \<in> set b"
    then have ig: "in_grid g (coord d)" using Cons.prems(1) by simp
    then have ig1: "in_grid g1 (coord d)" by (simp add: in_grid_shape [OF s1])
    have "coord d \<notin> coord ` set (concat bs)"
      using disj d by blast
    with u ig1 have "g' ! fst (coord d) ! snd (coord d) = g1 ! fst (coord d) ! snd (coord d)"
      by blast
    also have "\<dots> = cast_pixel (bucket_average b)"
      using v1 ig d by simp
    finally show "g' ! rindex d ! cindex d = cast_pixel (bucket_average b)"
      by (simp add: coord_def)
  qed
  moreover have "\<forall>rc. in_grid g rc \<longrightarrow> rc \<notin> coord ` set (concat (b # bs)) \<longrightarrow>
             g' ! fst rc ! snd rc = g ! fst rc ! snd rc"
  proof (intro allI impI)
    fix rc :: "nat \<times> nat"
    assume ig: "in_grid g rc" and n: "rc \<notin> coord ` set (concat (b # bs))"
    then have ig1: "in_grid g1 rc" by (simp add: in_grid_shape [OF s1])
    from n have "rc \<notin> coord ` set (concat bs)" and nb: "rc \<notin> coord ` set b" by auto
    with u ig1 have "g' ! fst rc ! snd rc = g1 ! fst rc ! snd rc" by blast
    also have "\<dots> = g ! fst rc ! snd rc" using v1 ig nb by simp
    finally show "g' ! fst rc ! snd rc = g ! fst rc ! snd rc" .
  qed
  ultimately show ?case using v by auto
qed

lemma median_cut_uint8:
  assumes "argsort_ok srt"
  shows "\<exists>out. median_cut_quantize srt (UInt8Image g) depth = Inr (UInt8Image out)
      \<and> map length out = map length g
      \<and> (\<forall>b\<in>set (buckets srt (byte_rows g) depth). \<forall>d\<in>set b.
             out ! rindex d ! cindex d = cast_pixel (bucket_average b))
      \<and> (\<forall>rc. in_grid g rc \<longrightarrow> (\<exists>b\<in>set (buckets srt (byte_rows g) depth). rc \<in> coord ` set b))"
proof -
  let ?bs = "buckets srt (byte_rows g) depth"
  have s: "set (concat ?bs) = set (byte_rows g)"
    by (rule set_concat_buckets [OF assms])
  have 1: "\<forall>d\<in>set (concat ?bs). in_grid g (coord d)"
  proof
    fix d assume "d \<in> set (concat ?bs)"
    then have "d \<in> set (byte_rows g)" by (simp only: s)
    then show "in_grid g (coord d)" by (simp add: byte_rows_def flatten_rows_in_grid)
  qed
  have 2: "distinct (map coord (concat ?bs))"
    by (rule distinct_coord_buckets [OF assms]) (simp add: byte_rows_def distinct_coord_flatten_rows)
  from write_buckets_uint8 [OF 1 2] obtain out where
    w: "write_buckets (UInt8Image g) Int64 ?bs = Inr (UInt8Image out)"
    and sh: "map length out = map length g"
    and v: "\<forall>b\<in>set ?bs. \<forall>d\<in>set b. out ! rindex d ! cindex d = cast_pixel (bucket_average b)"
    by blast
  have "median_cut_quantize srt (UInt8Image g) depth = Inr (UInt8Image out)"
    using w by (simp add: median_cut_quantize_def split_into_buckets_eq_write_buckets byte_rows_def)
  moreover have "\<forall>rc. in_grid g rc \<longrightarrow> (\<exists>b\<in>set ?bs. rc \<in> coord ` set b)"
  proof (intro allI impI)
    fix rc :: "nat \<times> nat"
    assume "in_grid g rc"
    then have "rc \<in> coord ` set (byte_rows g)"
      unfolding byte_rows_def by (rule flatten_rows_covers)
    then have "rc \<in> coord ` set (concat ?bs)"
      by (simp only: s)
    then show "\<exists>b\<in>set ?bs. rc \<in> coord ` set b" by auto
  qed
  ultimately show ?thesis using sh v by blast
qed

lemma shape_median_cut_uint8:
  assumes "argsort_ok srt"
  shows "\<exists>out. median_cut_quantize srt (UInt8Image g) depth = Inr (UInt8Image out)
           \<and> map length out = map length g"
  using median_cut_uint8 [OF assms, of g depth] by blast

lemma median_cut_quantize_uint8_shape:
  assumes "argsort_ok srt" and "is_uint8 img"
  shows "\<exists>out. median_cut_quantize srt img depth = Inr out \<and> shape out = shape img \<and> is_uint8 out"
proof -
  from assms(2) obtain g where g: "img = UInt8Image g" by (cases img) simp_all
  from shape_median_cut_uint8 [OF assms(1), of g depth] g show ?thesis by auto
qed

lemma median_cut_uint8_colors:
  assumes "argsort_ok srt"
    and "median_cut_quantize srt (UInt8Image g) depth = Inr (UInt8Image out)"
  shows "set (concat out) \<subseteq> (\<lambda>b. cast_pixel (bucket_average b)) ` set (buckets srt (byte_rows g) depth)"
proof
  fix x assume x: "x \<in> set (concat out)"
  from median_cut_uint8 [OF assms(1), of g depth] assms(2) have
    sh: "map length out = map length g"
    and v: "\<forall>b\<in>set (buckets srt (byte_rows g) depth). \<forall>d\<in>set b.
             out ! rindex d ! cindex d = cast_pixel (bucket_average b)"
    and c: "\<forall>rc. in_grid g rc \<longrightarrow> (\<exists>b\<in>set (buckets srt (byte_rows g) depth). rc \<in> coord ` set b)"
    by auto
  from set_concat_grid [OF x] obtain rc where rc: "in_grid out rc" and e: "x = out ! fst rc ! snd rc"
    by blast
  from rc have "in_grid g rc" by (simp add: in_grid_shape [OF sh])
  with c obtain b d where b: "b \<in> set (buckets srt (byte_rows g) depth)" and d: "d \<in> set b"
    and "rc = coord d" by blast
  then have "x = out ! rindex d ! cindex d" using e by (simp add: coord_def)
  with v b d show "x \<in> (\<lambda>b. cast_pixel (bucket_average b)) ` set (buckets srt (byte_rows g) depth)"
    by auto
qed

lemma card_colors_uint8:
  assumes "argsort_ok srt"
    and "median_cut_quantize srt (UInt8Image g) depth = Inr (UInt8Image out)"
  shows "card (set (concat out)) \<le> 2 ^ depth"
proof -
  let ?bs = "buckets srt (byte_rows g) depth"
  have "card (set (concat out)) \<le> card ((\<lambda>b. cast_pixel (bucket_average b)) ` set ?bs)"
    by (rule card_mono [OF _ median_cut_uint8_colors [OF assms]]) simp
  also have "\<dots> \<le> card (set ?bs)"
    by (rule card_image_le) simp
  also have "\<dots> \<le> length ?bs"
    by (rule card_length)
  also have "\<dots> \<le> 2 ^ depth"
    by (rule length_buckets)
  finally show ?thesis .
qed

subsection \<open>An image of floats\<close>

lemma write_buckets_float:
  "bs \<noteq> [] \<Longrightarrow> \<forall>b\<in>set bs. b \<noteq> [] \<Longrightarrow> write_buckets img Float64 bs = Inl IndexError"
  by (cases bs; cases "hd bs") (auto simp: median_cut_quantize_helper_def)

lemma split_into_buckets_float:
  assumes "argsort_ok srt" and "img_arr \<noteq> []"
  shows "split_into_buckets srt img Float64 img_arr depth = Inl IndexError"
  unfolding split_into_buckets_eq_write_buckets
  by (rule write_buckets_float) (use assms buckets_eq_Nil buckets_nonempty in auto)

lemma median_cut_float:
  assumes "argsort_ok srt"
  shows "median_cut_quantize srt (Float32Image g) depth =
           (if concat g = [] then Inr (Float32Image g) else Inl IndexError)"
proof (cases "concat g = []")
  case True
  then have "flatten_rows (\<lambda>x. x) g = []" by (simp add: flatten_rows_eq_Nil)
  then show ?thesis using True
    by (cases depth) (simp_all add: median_cut_quantize_def)
next
  case False
  then have "flatten_rows (\<lambda>x. x) g \<noteq> []" by (simp add: flatten_rows_eq_Nil)
  then show ?thesis using False
    by (simp add: median_cut_quantize_def split_into_buckets_float [OF assms])
qed

lemma median_cut_quantize_float:
  assumes "argsort_ok srt" and "\<not> is_uint8 img"
  shows "median_cut_quantize srt img depth = (if pixel_count img = 0 then Inr img else Inl IndexError)"
proof -
  from assms(2) obtain g where g: "img = Float32Image g" by (cases img) simp_all
  show ?thesis by (simp add: g median_cut_float [OF assms(1)])
qed

lemma distinct_colors_median_cut:
  assumes "argsort_ok srt" and "median_cut_quantize srt img depth = Inr out"
  shows "distinct_colors out \<le> 2 ^ depth"
proof (cases img)
  case (UInt8Image g)
  from shape_median_cut_uint8 [OF assms(1), of g depth] assms(2) UInt8Image
  obtain o8 where o: "out = UInt8Image o8" by auto
  with assms UInt8Image have "card (set (concat o8)) \<le> 2 ^ depth"
    using card_colors_uint8 by blast
  then show ?thesis using o by (simp add: length_remdups_card_conv)
next
  case (Float32Image g)
  with assms have "concat g = [] \<and> out = Float32Image g"
    by (simp add: median_cut_float split: if_splits)
  then have "distinct_colors out = 0"
    by (simp only: distinct_colors.simps remdups.simps list.size)
  then show ?thesis by simp
qed

subsection \<open>The logarithm\<close>

lemma floor_log2_bounds: "0 < n \<Longrightarrow> 2 ^ floor_log2 n \<le> n \<and> n < 2 ^ Suc (floor_log2 n)"
proof (induction n rule: floor_log2.induct)
  case (1 n)
  show ?case
  proof (cases "n < 2")
    case True
    with "1.prems" show ?thesis by (simp add: floor_log2.simps [of n])
  next
    case False
    then have "0 < n div 2" by simp
    with "1.IH" False have "2 ^ floor_log2 (n div 2) \<le> n div 2"
      and "n div 2 < 2 ^ Suc (floor_log2 (n div 2))" by simp_all
    then show ?thesis using False
      by (simp add: floor_log2.simps [of n]) linarith
  qed
qed

subsection \<open>Means and the cast to a byte\<close>

lemma sum_list_bounds:
  fixes xs :: "rat list"
  assumes "\<forall>x\<in>set xs. 0 \<le> x \<and> x \<le> c"
  shows "0 \<le> sum_list xs \<and> sum_list xs \<le> of_nat (length xs) * c"
  using assms by (induction xs) (auto simp: algebra_simps)

lemma np_mean_bounds:
  assumes "xs \<noteq> []" and "\<forall>x\<in>set xs. 0 \<le> x \<and> x \<le> c"
  shows "0 \<le> np_mean xs \<and> np_mean xs \<le> c"
proof -
  have n: "(0::rat) < of_nat (length xs)" using assms(1) by simp
  from sum_list_bounds [OF assms(2)]
  have "0 \<le> sum_list xs" and "sum_list xs \<le> of_nat (length xs) * c" by simp_all
  then show ?thesis
    using n by (simp add: np_mean_def pos_divide_le_eq mult.commute)
qed

lemma np_mean_const:
  assumes "xs \<noteq> []" and "\<forall>x\<in>set xs. x = v"
  shows "np_mean xs = v"
proof -
  have "xs = replicate (length xs) v"
    using assms(2) by (simp add: replicate_length_same)
  then have "sum_list xs = of_nat (length xs) * v"
    by (metis sum_list_replicate)
  then show ?thesis using assms(1) by (simp add: np_mean_def)
qed

lemma uint_to_uint8:
  assumes "0 \<le> x" and "x \<le> 255"
  shows "uint (to_uint8 x) = \<lfloor>x\<rfloor>"
proof -
  have "0 \<le> \<lfloor>x\<rfloor>" using assms(1) by simp
  moreover have "\<lfloor>x\<rfloor> \<le> 255" using assms(2) by (simp add: floor_le_iff) 
  ultimately have "uint (word_of_int \<lfloor>x\<rfloor> :: 8 word) = \<lfloor>x\<rfloor>"
    by (simp add: uint_word_of_int take_bit_int_eq_self)
  then show ?thesis using assms(1) by (simp add: to_uint8_def)
qed

lemma to_uint8_of_uint: "to_uint8 (of_int (uint w)) = w"
proof -
  have "0 \<le> uint w" by simp
  then have "(0::rat) \<le> of_int (uint w)" by (simp only: of_int_0_le_iff)
  then have "to_uint8 (of_int (uint w)) = word_of_int \<lfloor>(of_int (uint w) :: rat)\<rfloor>"
    by (simp only: to_uint8_def if_True)
  also have "\<dots> = word_of_int (uint w)" by (simp only: floor_of_int)
  finally show ?thesis by simp
qed

lemma byte_rows_chan_bounds:
  assumes "d \<in> set (byte_rows g)"
  shows "0 \<le> chan0 d \<and> chan0 d \<le> 255 \<and> 0 \<le> chan1 d \<and> chan1 d \<le> 255
       \<and> 0 \<le> chan2 d \<and> chan2 d \<le> 255"
proof -
  have b: "0 \<le> (of_int (uint w) :: rat) \<and> (of_int (uint w) :: rat) \<le> 255" for w :: "8 word"
  proof -
    have "uint w < 2 ^ 8" using uint_bounded [of w] by simp
    then have "uint w \<le> 255" by simp
    then have "(of_int (uint w) :: rat) \<le> of_int 255" by (simp only: of_int_le_iff)
    moreover have "0 \<le> uint w" by simp
    then have "(of_int 0 :: rat) \<le> of_int (uint w)" by (simp only: of_int_le_iff)
    ultimately show ?thesis by (simp only: of_int_0 of_int_numeral)
  qed
  from assms have "d \<in> set (flatten_rows (\<lambda>w. of_int (uint w)) g)"
    by (simp only: byte_rows_def)
  from flatten_rows_chan [OF this] obtain w0 w1 w2 :: "8 word" where
    "chan0 d = of_int (uint w0)" "chan1 d = of_int (uint w1)" "chan2 d = of_int (uint w2)"
    by blast
  then show ?thesis
    using b [of w0] b [of w1] b [of w2] by (simp only:)
qed

lemma bucket_means_in_range:
  assumes "argsort_ok srt" and "b \<in> set (buckets srt (byte_rows g) depth)"
  shows "0 \<le> np_mean (map chan0 b) \<and> np_mean (map chan0 b) \<le> 255
       \<and> 0 \<le> np_mean (map chan1 b) \<and> np_mean (map chan1 b) \<le> 255
       \<and> 0 \<le> np_mean (map chan2 b) \<and> np_mean (map chan2 b) \<le> 255"
proof -
  have ne: "b \<noteq> []" using assms(2) by (rule buckets_nonempty)
  have "set b \<subseteq> set (concat (buckets srt (byte_rows g) depth))"
    using assms(2) by auto
  then have sub: "set b \<subseteq> set (byte_rows g)"
    by (simp only: set_concat_buckets [OF assms(1)])
  have "\<forall>x\<in>set (map chan0 b). 0 \<le> x \<and> x \<le> 255"
       "\<forall>x\<in>set (map chan1 b). 0 \<le> x \<and> x \<le> 255"
       "\<forall>x\<in>set (map chan2 b). 0 \<le> x \<and> x \<le> 255"
    using sub byte_rows_chan_bounds [of _ g] by auto
  then show ?thesis
    using ne np_mean_bounds [of "map chan0 b" 255] np_mean_bounds [of "map chan1 b" 255]
      np_mean_bounds [of "map chan2 b" 255]
    by simp
qed

lemma bucket_average_one_color:
  assumes "one_color b" and "d \<in> set b"
  shows "bucket_average b = color d"
proof -
  have ne: "b \<noteq> []" using assms(2) by auto
  have h: "chan0 e = chan0 d \<and> chan1 e = chan1 d \<and> chan2 e = chan2 d" if "e \<in> set b" for e
    using assms that unfolding one_color_def color_def prod.inject by blast
  have "np_mean (map chan0 b) = chan0 d"
    by (rule np_mean_const) (use ne h in auto)
  moreover have "np_mean (map chan1 b) = chan1 d"
    by (rule np_mean_const) (use ne h in auto)
  moreover have "np_mean (map chan2 b) = chan2 d"
    by (rule np_mean_const) (use ne h in auto)
  ultimately show ?thesis
    by (simp only: bucket_average_def color_def)
qed

lemma cast_pixel_color_byte_rows:
  assumes "d \<in> set (byte_rows g)"
  shows "cast_pixel (color d) = g ! rindex d ! cindex d"
proof -
  from assms have "d \<in> set (flatten_rows (\<lambda>w. of_int (uint w)) g)"
    by (simp only: byte_rows_def)
  from flatten_rows_chan [OF this]
  have "chan0 d = of_int (uint (fst (g ! rindex d ! cindex d)))"
    "chan1 d = of_int (uint (fst (snd (g ! rindex d ! cindex d))))"
    "chan2 d = of_int (uint (snd (snd (g ! rindex d ! cindex d))))"
    by blast+
  then have "cast_pixel (color d) =
    (fst (g ! rindex d ! cindex d), fst (snd (g ! rindex d ! cindex d)), snd (snd (g ! rindex d ! cindex d)))"
    by (simp only: cast_pixel_def color_def fst_conv snd_conv to_uint8_of_uint)
  then show ?thesis by simp
qed

subsection \<open>Images that a run leaves as they are\<close>

lemma median_cut_fixed_point:
  assumes ok: "argsort_ok srt"
    and c: "\<forall>b\<in>set (buckets srt (byte_rows g) depth). one_color b"
  shows "median_cut_quantize srt (UInt8Image g) depth = Inr (UInt8Image g)"
proof -
  let ?bs = "buckets srt (byte_rows g) depth"
  from median_cut_uint8 [OF ok, of g depth] obtain out where
    r: "median_cut_quantize srt (UInt8Image g) depth = Inr (UInt8Image out)"
    and sh: "map length out = map length g"
    and v: "\<forall>b\<in>set ?bs. \<forall>d\<in>set b. out ! rindex d ! cindex d = cast_pixel (bucket_average b)"
    and cov: "\<forall>rc. in_grid g rc \<longrightarrow> (\<exists>b\<in>set ?bs. rc \<in> coord ` set b)"
    by blast
  have "out ! fst rc ! snd rc = g ! fst rc ! snd rc" if "in_grid g rc" for rc
  proof -
    from cov that obtain b d where b: "b \<in> set ?bs" and d: "d \<in> set b" and rc: "rc = coord d"
      by blast
    have "d \<in> set (concat ?bs)" using b d by auto
    then have dg: "d \<in> set (byte_rows g)" by (simp only: set_concat_buckets [OF ok])
    have "out ! rindex d ! cindex d = cast_pixel (bucket_average b)" using v b d by blast
    also have "\<dots> = cast_pixel (color d)"
      using bucket_average_one_color [of b d] c b d by simp
    also have "\<dots> = g ! rindex d ! cindex d" by (rule cast_pixel_color_byte_rows [OF dg])
    finally show ?thesis by (simp add: rc coord_def)
  qed
  then have "out = g" using sh by (intro grid_eqI) simp_all
  with r show ?thesis by simp
qed

lemma median_cut_depth0_idempotent:
  assumes "median_cut_quantize srt img 0 = Inr out"
  shows "median_cut_quantize srt' out 0 = Inr out"
proof (cases img)
  case (UInt8Image g)
  let ?s = stable_argsort
  have ok: "argsort_ok ?s" by (rule argsort_ok_stable_argsort)
  have r0: "median_cut_quantize ?s (UInt8Image g) 0 = Inr out"
    using assms UInt8Image median_cut_quantize_0_any_sort [of ?s img srt] by simp
  from median_cut_uint8 [OF ok, of g 0] obtain o8 where
    r: "median_cut_quantize ?s (UInt8Image g) 0 = Inr (UInt8Image o8)"
    and sh: "map length o8 = map length g"
    and v: "\<forall>b\<in>set (buckets ?s (byte_rows g) 0). \<forall>d\<in>set b.
              o8 ! rindex d ! cindex d = cast_pixel (bucket_average b)"
    and cov: "\<forall>rc. in_grid g rc \<longrightarrow> (\<exists>b\<in>set (buckets ?s (byte_rows g) 0). rc \<in> coord ` set b)"
    by blast
  from r r0 have o: "out = UInt8Image o8" by simp
  have px: "o8 ! rindex d ! cindex d = cast_pixel (bucket_average (byte_rows g))"
    if "d \<in> set (byte_rows o8)" for d
  proof -
    from that have "in_grid o8 (coord d)"
      by (simp only: byte_rows_def flatten_rows_in_grid)
    then have "in_grid g (coord d)" by (simp only: in_grid_shape [OF sh])
    with cov obtain b d' where b: "b \<in> set (buckets ?s (byte_rows g) 0)" and d': "d' \<in> set b"
      and rc: "coord d = coord d'" by blast
    from b have bg: "b = byte_rows g" by (simp split: if_splits)
    from v b d' have "o8 ! rindex d' ! cindex d' = cast_pixel (bucket_average b)" by blast
    moreover from rc have "rindex d = rindex d'" "cindex d = cindex d'"
      by (simp_all add: coord_def)
    ultimately show ?thesis by (simp only: bg)
  qed
  have c: "color x = (of_int (uint (fst (o8 ! rindex x ! cindex x))),
                      of_int (uint (fst (snd (o8 ! rindex x ! cindex x)))),
                      of_int (uint (snd (snd (o8 ! rindex x ! cindex x)))))"
    if "x \<in> set (byte_rows o8)" for x
  proof -
    from that have "x \<in> set (flatten_rows (\<lambda>w. of_int (uint w)) o8)"
      by (simp only: byte_rows_def)
    from flatten_rows_chan [OF this] show ?thesis
      by (simp only: color_def)
  qed
  have col: "color d = color e" if d: "d \<in> set (byte_rows o8)" and e: "e \<in> set (byte_rows o8)" for d e
    by (simp only: c [OF d] c [OF e] px [OF d] px [OF e])
  have "one_color (byte_rows o8)"
    unfolding one_color_def using col by blast
  then have "\<forall>b\<in>set (buckets ?s (byte_rows o8) 0). one_color b"
    by simp
  from median_cut_fixed_point [OF ok this]
  have "median_cut_quantize ?s (UInt8Image o8) 0 = Inr (UInt8Image o8)" .
  then show ?thesis
    using o median_cut_quantize_0_any_sort [of srt' out ?s] by simp
next
  case (Float32Image g)
  let ?s = stable_argsort
  have ok: "argsort_ok ?s" by (rule argsort_ok_stable_argsort)
  have "median_cut_quantize ?s (Float32Image g) 0 = Inr out"
    using assms Float32Image median_cut_quantize_0_any_sort [of ?s img srt] by simp
  then have e: "concat g = [] \<and> out = Float32Image g"
    by (simp add: median_cut_float [OF ok] split: if_splits)
  then have "median_cut_quantize ?s out 0 = Inr out"
    by (simp add: median_cut_float [OF ok])
  then show ?thesis
    using median_cut_quantize_0_any_sort [of srt' out ?s] by simp
qed

subsection \<open>The store\<close>

lemma only_at_refl: "only_at img h h"
  by (simp add: only_at_def)

lemma only_at_trans: "only_at img h h1 \<Longrightarrow> only_at img h1 h2 \<Longrightarrow> only_at img h h2"
  by (simp add: only_at_def)

lemma set_pixel_at_only_at: "only_at img h (fst (set_pixel_at h img dt ri ci avg))"
  by (simp add: set_pixel_at_def only_at_def split: sum.splits)

lemma write_rows_at_only_at: "only_at img h (fst (write_rows_at h img dt avg ds))"
proof (induction ds arbitrary: h)
  case Nil
  show ?case by (simp add: only_at_refl)
next
  case (Cons d ds)
  obtain h1 r where s: "set_pixel_at h img dt (rindex d) (cindex d) avg = (h1, r)"
    by (cases "set_pixel_at h img dt (rindex d) (cindex d) avg")
  then have 1: "only_at img h h1"
    using set_pixel_at_only_at [of img h dt "rindex d" "cindex d" avg] by simp
  show ?case
  proof (cases r)
    case None
    with s 1 Cons.IH [of h1] show ?thesis
      by (simp add: only_at_trans)
  next
    case (Some e)
    with s 1 show ?thesis by simp
  qed
qed

lemma split_into_buckets_at_only_at:
  "only_at img h (fst (split_into_buckets_at srt h img dt img_arr depth))"
proof (induction depth arbitrary: h img_arr)
  case 0
  show ?case
    by (simp add: only_at_refl median_cut_quantize_helper_at_def write_rows_at_only_at)
next
  case (Suc depth)
  show ?case
  proof (cases "img_arr = []")
    case True
    then show ?thesis by (simp add: only_at_refl)
  next
    case False
    let ?s = "sort_by_channel srt (space_with_highest_range img_arr) img_arr"
    let ?m = "length ?s div 2"
    obtain h1 r where s: "split_into_buckets_at srt h img dt (take ?m ?s) depth = (h1, r)"
      by (cases "split_into_buckets_at srt h img dt (take ?m ?s) depth")
    then have 1: "only_at img h h1"
      using Suc.IH [of h "take ?m ?s"] by simp
    show ?thesis
    proof (cases r)
      case None
      with s 1 False Suc.IH [of h1 "drop ?m ?s"] show ?thesis
        by (simp add: Let_def only_at_trans)
    next
      case (Some e)
      with s 1 False show ?thesis by (simp add: Let_def)
    qed
  qed
qed

lemma write_rows_at_refines:
  assumes "img < length h"
  shows "case write_rows (h ! img) dt avg ds of
           Inl e \<Rightarrow> snd (write_rows_at h img dt avg ds) = Some e
         | Inr out \<Rightarrow> write_rows_at h img dt avg ds = (h[img := out], None)"
  using assms
proof (induction ds arbitrary: h)
  case Nil
  then show ?case by simp
next
  case (Cons d ds)
  show ?case
  proof (cases "set_pixel (h ! img) dt (rindex d) (cindex d) avg")
    case (Inl e)
    then show ?thesis by (simp add: set_pixel_at_def)
  next
    case (Inr x)
    have "img < length (h[img := x])" using Cons.prems by simp
    from Cons.IH [OF this] Inr Cons.prems show ?thesis
      by (simp add: set_pixel_at_def split: sum.splits)
  qed
qed

lemma split_into_buckets_at_refines:
  assumes "img < length h"
  shows "case split_into_buckets srt (h ! img) dt img_arr depth of
           Inl e \<Rightarrow> snd (split_into_buckets_at srt h img dt img_arr depth) = Some e
         | Inr out \<Rightarrow> split_into_buckets_at srt h img dt img_arr depth = (h[img := out], None)"
  using assms
proof (induction depth arbitrary: h img_arr)
  case 0
  then show ?case
    using write_rows_at_refines [of img h dt "bucket_average img_arr" img_arr]
    by (simp add: median_cut_quantize_helper_def median_cut_quantize_helper_at_def
          split: sum.splits)
next
  case (Suc depth)
  show ?case
  proof (cases "img_arr = []")
    case True
    with Suc.prems show ?thesis by simp
  next
    case False
    let ?s = "sort_by_channel srt (space_with_highest_range img_arr) img_arr"
    let ?m = "length ?s div 2"
    show ?thesis
    proof (cases "split_into_buckets srt (h ! img) dt (take ?m ?s) depth")
      case (Inl e)
      with Suc.IH [OF Suc.prems, of "take ?m ?s"]
      have "snd (split_into_buckets_at srt h img dt (take ?m ?s) depth) = Some e"
        by simp
      then obtain h1 where "split_into_buckets_at srt h img dt (take ?m ?s) depth = (h1, Some e)"
        by (metis prod.collapse)
      with Inl False show ?thesis
        by (simp add: Let_def)
    next
      case (Inr x)
      with Suc.IH [OF Suc.prems, of "take ?m ?s"]
      have 1: "split_into_buckets_at srt h img dt (take ?m ?s) depth = (h[img := x], None)"
        by simp
      have "img < length (h[img := x])" using Suc.prems by simp
      from Suc.IH [OF this, of "drop ?m ?s"] Inr 1 False Suc.prems show ?thesis
        by (simp add: Let_def split: sum.splits)
    qed
  qed
qed

lemma median_cut_quantize_at_refines:
  assumes "image_ref self < length h"
  shows "case median_cut_quantize srt (h ! image_ref self) n_colors of
           Inl e \<Rightarrow> snd (median_cut_quantize_at srt self h n_colors) = Inl e
         | Inr out \<Rightarrow> median_cut_quantize_at srt self h n_colors
                        = (h @ [out], Inr (length h))"
proof -
  let ?h1 = "h @ [h ! image_ref self]"
  have "length h < length ?h1" by simp
  from split_into_buckets_at_refines [OF this, of srt
          "fst (flattened_img_array (h ! image_ref self))"
          "snd (flattened_img_array (h ! image_ref self))" n_colors]
  show ?thesis
    by (simp add: median_cut_quantize_at_def median_cut_quantize_def Let_def case_prod_unfold
          split: sum.splits option.splits)
qed

subsection \<open>A second run on a quantised image\<close>

text \<open>
  The image \<open>(0,90,0)\<close>, \<open>(60,0,0)\<close>, \<open>(100,0,0)\<close> is split on channel 0; its result is
  split on channel 1, where two keys are equal. Whatever the sort does with them, the
  second run changes the result of the first.
\<close>

lemma argsort_90_0_0:
  assumes "argsort_ok srt"
  shows "srt [90, 0, 0] = [1, 2, 0] \<or> srt [90, 0, 0] = [2, 1, 0]"
proof -
  let ?k = "[90, 0, 0] :: rat list"
  have m: "mset (srt ?k) = mset [0, 1, 2]"
    using argsort_ok_mset [OF assms, of ?k] by (simp add: upt_rec)
  have "length (srt ?k) = length [0::nat, 1, 2]"
    using m by (metis size_mset)
  then have "length (srt ?k) = Suc (Suc (Suc 0))" by simp
  then obtain a b c where abc: "srt ?k = [a, b, c]"
    by (auto simp: length_Suc_conv)
  have "set (srt ?k) = set [0, 1, 2]"
    using m by (metis set_mset_mset)
  then have s: "{a, b, c} = {0, 1, 2}"
    using abc by simp
  have "distinct (srt ?k) = distinct [0::nat, 1, 2]"
    using m by (rule mset_eq_imp_distinct_iff)
  then have d: "a \<noteq> b \<and> a \<noteq> c \<and> b \<noteq> c"
    using abc by simp
  have "sorted (map ((!) ?k) (srt ?k))"
    by (rule argsort_ok_sorted [OF assms])
  then have o: "?k ! a \<le> ?k ! b \<and> ?k ! b \<le> ?k ! c"
    using abc by simp
  from s have "a \<in> {0, 1, 2}" "b \<in> {0, 1, 2}" "c \<in> {0, 1, 2}" by blast+
  then have r: "(a = 0 \<or> a = 1 \<or> a = 2) \<and> (b = 0 \<or> b = 1 \<or> b = 2) \<and> (c = 0 \<or> c = 1 \<or> c = 2)"
    by simp
  have a: "a \<noteq> 0"
  proof
    assume "a = 0"
    with d r have "b = 1 \<or> b = 2" by simp
    with o \<open>a = 0\<close> show False by auto
  qed
  have b: "b \<noteq> 0"
  proof
    assume "b = 0"
    with d r have "c = 1 \<or> c = 2" by simp
    with o \<open>b = 0\<close> show False by auto
  qed
  from a b d r have "(a = 1 \<and> b = 2 \<and> c = 0) \<or> (a = 2 \<and> b = 1 \<and> c = 0)" by auto
  with abc show ?thesis by simp
qed

lemma median_cut_depth1_same_indices:
  assumes "srt (map (chan (space_with_highest_range (snd (flattened_img_array img))))
                    (snd (flattened_img_array img)))
         = srt' (map (chan (space_with_highest_range (snd (flattened_img_array img))))
                     (snd (flattened_img_array img)))"
  shows "median_cut_quantize srt img (Suc 0) = median_cut_quantize srt' img (Suc 0)"
proof -
  let ?arr = "snd (flattened_img_array img)"
  have "buckets srt ?arr (Suc 0) = buckets srt' ?arr (Suc 0)"
    using assms by (simp add: Let_def sort_by_channel_def)
  then show ?thesis
    by (simp only: median_cut_quantize_def case_prod_unfold Let_def
          split_into_buckets_eq_write_buckets)
qed

lemma rerun_changes_image_any_sort:
  assumes "argsort_ok srt"
  shows "median_cut_quantize srt (UInt8Image [[(0, 90, 0), (60, 0, 0), (100, 0, 0)]]) (Suc 0)
           = Inr (UInt8Image [[(0, 90, 0), (80, 0, 0), (80, 0, 0)]])
       \<and> (median_cut_quantize srt (UInt8Image [[(0, 90, 0), (80, 0, 0), (80, 0, 0)]]) (Suc 0)
             = Inr (UInt8Image [[(40, 45, 0), (80, 0, 0), (40, 45, 0)]])
          \<or> median_cut_quantize srt (UInt8Image [[(0, 90, 0), (80, 0, 0), (80, 0, 0)]]) (Suc 0)
             = Inr (UInt8Image [[(40, 45, 0), (40, 45, 0), (80, 0, 0)]]))"
proof -
  let ?img = "UInt8Image [[(0, 90, 0), (60, 0, 0), (100, 0, 0)]]"
  let ?out = "UInt8Image [[(0, 90, 0), (80, 0, 0), (80, 0, 0)]]"
  let ?keys = "map (chan (space_with_highest_range (snd (flattened_img_array ?out))))
                   (snd (flattened_img_array ?out))"
  have d: "distinct (map (chan (space_with_highest_range (snd (flattened_img_array ?img))))
                         (snd (flattened_img_array ?img)))"
    by code_simp
  have "median_cut_quantize stable_argsort ?img (Suc 0) = Inr ?out"
    by code_simp
  then have first: "median_cut_quantize srt ?img (Suc 0) = Inr ?out"
    by (simp only: median_cut_depth1_distinct [OF assms d])
  have k: "?keys = [90, 0, 0]" by code_simp
  have s: "stable_argsort [90, 0, 0] = [1, 2, 0]" by code_simp
  have t: "tie_reversing_argsort [90, 0, 0] = [2, 1, 0]" by code_simp
  have es: "median_cut_quantize stable_argsort ?out (Suc 0)
             = Inr (UInt8Image [[(40, 45, 0), (80, 0, 0), (40, 45, 0)]])"
    by code_simp
  have et: "median_cut_quantize tie_reversing_argsort ?out (Suc 0)
             = Inr (UInt8Image [[(40, 45, 0), (40, 45, 0), (80, 0, 0)]])"
    by code_simp
  from argsort_90_0_0 [OF assms] have "srt ?keys = stable_argsort ?keys \<or> srt ?keys = tie_reversing_argsort ?keys"
    by (simp only: k s t)
  then have "median_cut_quantize srt ?out (Suc 0) = median_cut_quantize stable_argsort ?out (Suc 0)
           \<or> median_cut_quantize srt ?out (Suc 0) = median_cut_quantize tie_reversing_argsort ?out (Suc 0)"
    using median_cut_depth1_same_indices [of srt ?out stable_argsort]
      median_cut_depth1_same_indices [of srt ?out tie_reversing_argsort]
    by blast
  then show ?thesis
    by (simp only: first es et simp_thms)
qed

section \<open>The claims\<close>

text \<open>
  \<^bold>\<open>C1.\<close> The image of one row with the four byte pixels \<open>(0,0,0)\<close>, \<open>(100,0,0)\<close>,
  \<open>(50,0,0)\<close>, \<open>(200,0,0)\<close>, quantised with \<^verbatim>\<open>'median_cut'\<close> and
  \<open>n_colors = 2\<close>, comes back as \<open>(25,0,0)\<close>, \<open>(150,0,0)\<close>, \<open>(25,0,0)\<close>,
  \<open>(150,0,0)\<close>, whatever order the sort gives to equal keys.
\<close>

theorem median_cut_example:
  assumes "argsort_ok srt"
  shows "aggregate_colors km lg srt
           (UInt8Image [[(0, 0, 0), (100, 0, 0), (50, 0, 0), (200, 0, 0)]]) ''median_cut'' 2
         = Inr (UInt8Image [[(25, 0, 0), (150, 0, 0), (25, 0, 0), (150, 0, 0)]])"
proof -
  let ?img = "UInt8Image [[(0, 0, 0), (100, 0, 0), (50, 0, 0), (200, 0, 0)]]"
  have d: "distinct (map (chan (space_with_highest_range (snd (flattened_img_array ?img))))
                         (snd (flattened_img_array ?img)))"
    by code_simp
  have p: "n_color_param lg 2 = Inr (Suc 0)"
    by (simp add: n_color_param_def floor_log2.simps)
  have e: "median_cut_quantize stable_argsort ?img (Suc 0)
             = Inr (UInt8Image [[(25, 0, 0), (150, 0, 0), (25, 0, 0), (150, 0, 0)]])"
    by code_simp
  show ?thesis
    by (simp add: aggregate_colors_def p median_cut_depth1_distinct [OF assms d] e)
qed

theorem median_cut_example_witness:
  "argsort_ok stable_argsort
   \<and> aggregate_colors (\<lambda>_ _. Inl IndexError) (\<lambda>_. 0) stable_argsort
           (UInt8Image [[(0, 0, 0), (100, 0, 0), (50, 0, 0), (200, 0, 0)]]) ''median_cut'' 2
         = Inr (UInt8Image [[(25, 0, 0), (150, 0, 0), (25, 0, 0), (150, 0, 0)]])"
proof -
  have ok: "argsort_ok stable_argsort" by (rule argsort_ok_stable_argsort)
  from median_cut_example [OF ok] ok show ?thesis by blast
qed

text \<open>
  \<^bold>\<open>C2\<close> (as amended). For every image and every \<open>n_colors\<close> from 1 and below
  \<open>2^64\<close>, the method \<^verbatim>\<open>'median_cut'\<close> turns \<open>n_colors\<close> into a depth \<open>d\<close>, and an
  image it returns has at most \<open>2^d\<close> distinct colours. Below \<open>2^32\<close> the depth is
  \<open>floor (log2 n_colors)\<close>, that is \<open>2^d \<le> n_colors < 2^(d+1)\<close>, and the image has fewer
  than \<open>n_colors\<close> colours when \<open>n_colors\<close> is not a power of two. From \<open>2^64\<close> on the call
  raises \<^verbatim>\<open>TypeError\<close>: the counterexample.
\<close>

theorem median_cut_color_count:
  assumes "argsort_ok srt" and "1 \<le> n_colors" and "n_colors < 2 ^ 64"
  shows "\<exists>d. n_color_param lg n_colors = Inr d
           \<and> (n_colors < 2 ^ 32 \<longrightarrow> 2 ^ d \<le> n_colors \<and> n_colors < 2 ^ Suc d)
           \<and> (\<forall>out. aggregate_colors km lg srt img ''median_cut'' n_colors = Inr out \<longrightarrow>
                  distinct_colors out \<le> 2 ^ d
                  \<and> (n_colors < 2 ^ 32 \<and> n_colors \<noteq> 2 ^ d \<longrightarrow>
                       int (distinct_colors out) < n_colors))"
proof -
  define d where "d = (if n_colors < 2 ^ 32 then floor_log2 (nat n_colors) else lg n_colors)"
  have p: "n_color_param lg n_colors = Inr d"
    using assms(2,3) by (simp add: n_color_param_def d_def)
  have dd: "d = floor_log2 (nat n_colors)" if "n_colors < 2 ^ 32"
    using that by (simp add: d_def)
  have b: "2 ^ d \<le> n_colors \<and> n_colors < 2 ^ Suc d" if "n_colors < 2 ^ 32"
  proof -
    have "0 < nat n_colors" using assms(2) by simp
    from floor_log2_bounds [OF this] dd [OF that]
    have "2 ^ d \<le> nat n_colors" and "nat n_colors < 2 ^ Suc d" by simp_all
    then have "int (2 ^ d) \<le> n_colors" and "n_colors < int (2 ^ Suc d)"
      using assms(2) by linarith+
    then show ?thesis by simp
  qed
  have "distinct_colors out \<le> 2 ^ d
        \<and> (n_colors < 2 ^ 32 \<and> n_colors \<noteq> 2 ^ d \<longrightarrow> int (distinct_colors out) < n_colors)"
    if "aggregate_colors km lg srt img ''median_cut'' n_colors = Inr out" for out
  proof -
    from that p have "median_cut_quantize srt img d = Inr out"
      by (simp add: aggregate_colors_def)
    from distinct_colors_median_cut [OF assms(1) this]
    have c: "distinct_colors out \<le> 2 ^ d" .
    then have "int (distinct_colors out) \<le> 2 ^ d"
      by (metis of_nat_le_iff of_nat_numeral of_nat_power)
    with b c show ?thesis by linarith
  qed
  with p b show ?thesis by blast
qed

theorem median_cut_color_count_witness:
  "argsort_ok stable_argsort \<and> (1::int) \<le> 3 \<and> (3::int) < 2 ^ 64 \<and> (3::int) < 2 ^ 32
   \<and> n_color_param (\<lambda>_. 0) 3 = Inr 1
   \<and> aggregate_colors (\<lambda>_ _. Inl IndexError) (\<lambda>_. 0) stable_argsort
        (UInt8Image [[(0, 0, 0), (100, 0, 0), (50, 0, 0), (200, 0, 0)]]) ''median_cut'' 3
      = Inr (UInt8Image [[(25, 0, 0), (150, 0, 0), (25, 0, 0), (150, 0, 0)]])
   \<and> distinct_colors (UInt8Image [[(25, 0, 0), (150, 0, 0), (25, 0, 0), (150, 0, 0)]]) \<le> 2 ^ 1
   \<and> int (distinct_colors (UInt8Image [[(25, 0, 0), (150, 0, 0), (25, 0, 0), (150, 0, 0)]])) < 3"
proof -
  let ?km = "\<lambda>(_::image) (_::int). (Inl IndexError :: error + image)"
  let ?lg = "\<lambda>_::int. 0::nat"
  let ?img = "UInt8Image [[(0, 0, 0), (100, 0, 0), (50, 0, 0), (200, 0, 0)]]"
  let ?out = "UInt8Image [[(25, 0, 0), (150, 0, 0), (25, 0, 0), (150, 0, 0)]]"
  have ok: "argsort_ok stable_argsort" by (rule argsort_ok_stable_argsort)
  have one: "(1::int) \<le> 3" by simp
  have lt: "(3::int) < 2 ^ 64" by simp
  have lt': "(3::int) < 2 ^ 32" by simp
  have p: "n_color_param ?lg 3 = Inr 1" by code_simp
  have e: "aggregate_colors ?km ?lg stable_argsort ?img ''median_cut'' 3 = Inr ?out"
    by code_simp
  from median_cut_color_count [OF ok one lt, of ?lg ?km ?img] p e lt'
  have "distinct_colors ?out \<le> 2 ^ 1 \<and> int (distinct_colors ?out) < 3"
    by auto
  then show ?thesis using ok p e by simp
qed

theorem huge_n_colors_counterexample:
  "(1::int) \<le> 2 ^ 64
   \<and> n_color_param (\<lambda>_. 0) (2 ^ 64) = Inl TypeError
   \<and> aggregate_colors (\<lambda>_ _. Inl IndexError) (\<lambda>_. 0) stable_argsort
        (UInt8Image [[(0, 0, 0), (100, 0, 0), (50, 0, 0), (200, 0, 0)]]) ''median_cut'' (2 ^ 64)
      = Inl TypeError"
  by (simp add: aggregate_colors_def n_color_param_def)

text \<open>
  \<^bold>\<open>C3\<close> (as amended). Each split sorts the bucket by the selected channel: the
  sorted bucket holds the same rows and is in ascending order of that channel. When the
  values of the channel are pairwise different this is the order a stable sort gives;
  the order of rows with equal values is whatever the sort of the indices makes it.

  The counterexample is the image \<open>(20,0,0)\<close>, \<open>(20,9,0)\<close>, \<open>(10,0,0)\<close>, \<open>(10,9,0)\<close>,
  \<open>(0,0,0)\<close>. The selected channel is 0, with the keys 20, 20, 10, 10, 0. For such
  keys a numpy that sorts with vector instructions returns the indices 4, 3, 2, 1, 0,
  where a stable sort returns 4, 2, 3, 0, 1: the rows of each pair of equal keys change
  places, the two buckets hold other rows, and the image that comes back is another.
  \<open>tie_reversing_argsort\<close> is a sort with this answer.
\<close>

theorem sort_by_channel_sorted_permutation:
  assumes "argsort_ok srt"
  shows "mset (sort_by_channel srt k img_arr) = mset img_arr
       \<and> sorted (map (chan k) (sort_by_channel srt k img_arr))
       \<and> (distinct (map (chan k) img_arr) \<longrightarrow>
            sort_by_channel srt k img_arr = sort_key (chan k) img_arr)"
  using mset_sort_by_channel [OF assms] sorted_sort_by_channel [OF assms]
    sort_by_channel_distinct [OF assms] by blast

theorem sort_by_channel_sorted_permutation_witness:
  "argsort_ok stable_argsort
   \<and> space_with_highest_range (byte_rows [[(7, 0, 0), (3, 1, 0), (10, 0, 0)]]) = 0
   \<and> mset (sort_by_channel stable_argsort 0 (byte_rows [[(7, 0, 0), (3, 1, 0), (10, 0, 0)]]))
       = mset (byte_rows [[(7, 0, 0), (3, 1, 0), (10, 0, 0)]])
   \<and> sorted (map (chan 0) (sort_by_channel stable_argsort 0 (byte_rows [[(7, 0, 0), (3, 1, 0), (10, 0, 0)]])))
   \<and> distinct (map (chan 0) (byte_rows [[(7, 0, 0), (3, 1, 0), (10, 0, 0)]]))
   \<and> sort_by_channel stable_argsort 0 (byte_rows [[(7, 0, 0), (3, 1, 0), (10, 0, 0)]])
       = sort_key (chan 0) (byte_rows [[(7, 0, 0), (3, 1, 0), (10, 0, 0)]])
   \<and> map coord (sort_by_channel stable_argsort 0 (byte_rows [[(7, 0, 0), (3, 1, 0), (10, 0, 0)]]))
       = [(0, 1), (0, 0), (0, 2)]"
proof -
  have ok: "argsort_ok stable_argsort" by (rule argsort_ok_stable_argsort)
  have k: "space_with_highest_range (byte_rows [[(7, 0, 0), (3, 1, 0), (10, 0, 0)]]) = 0"
    by code_simp
  have d: "distinct (map (chan 0) (byte_rows [[(7, 0, 0), (3, 1, 0), (10, 0, 0)]]))"
    by code_simp
  have c: "map coord (sort_by_channel stable_argsort 0 (byte_rows [[(7, 0, 0), (3, 1, 0), (10, 0, 0)]]))
       = [(0, 1), (0, 0), (0, 2)]"
    by code_simp
  from sort_by_channel_sorted_permutation
         [OF ok, of 0 "byte_rows [[(7, 0, 0), (3, 1, 0), (10, 0, 0)]]"] ok k d c
  show ?thesis by blast
qed

theorem sort_not_stable_counterexample:
  "space_with_highest_range
       (byte_rows [[(20, 0, 0), (20, 9, 0), (10, 0, 0), (10, 9, 0), (0, 0, 0)]]) = 0
   \<and> map (chan 0) (byte_rows [[(20, 0, 0), (20, 9, 0), (10, 0, 0), (10, 9, 0), (0, 0, 0)]])
       = [20, 20, 10, 10, 0]
   \<and> stable_argsort [20, 20, 10, 10, 0] = [4, 2, 3, 0, 1]
   \<and> tie_reversing_argsort [20, 20, 10, 10, 0] = [4, 3, 2, 1, 0]
   \<and> argsort_ok tie_reversing_argsort
   \<and> map coord (sort_key (chan 0)
         (byte_rows [[(20, 0, 0), (20, 9, 0), (10, 0, 0), (10, 9, 0), (0, 0, 0)]]))
       = [(0, 4), (0, 2), (0, 3), (0, 0), (0, 1)]
   \<and> map coord (sort_by_channel tie_reversing_argsort 0
         (byte_rows [[(20, 0, 0), (20, 9, 0), (10, 0, 0), (10, 9, 0), (0, 0, 0)]]))
       = [(0, 4), (0, 3), (0, 2), (0, 1), (0, 0)]
   \<and> median_cut_quantize stable_argsort
         (UInt8Image [[(20, 0, 0), (20, 9, 0), (10, 0, 0), (10, 9, 0), (0, 0, 0)]]) 1
       = Inr (UInt8Image [[(16, 6, 0), (16, 6, 0), (5, 0, 0), (16, 6, 0), (5, 0, 0)]])
   \<and> median_cut_quantize tie_reversing_argsort
         (UInt8Image [[(20, 0, 0), (20, 9, 0), (10, 0, 0), (10, 9, 0), (0, 0, 0)]]) 1
       = Inr (UInt8Image [[(16, 3, 0), (16, 3, 0), (16, 3, 0), (5, 4, 0), (5, 4, 0)]])"
proof -
  have "space_with_highest_range
       (byte_rows [[(20, 0, 0), (20, 9, 0), (10, 0, 0), (10, 9, 0), (0, 0, 0)]]) = 0"
    by code_simp
  moreover have "map (chan 0) (byte_rows [[(20, 0, 0), (20, 9, 0), (10, 0, 0), (10, 9, 0), (0, 0, 0)]])
       = [20, 20, 10, 10, 0]"
    by code_simp
  moreover have "stable_argsort [20, 20, 10, 10, 0] = [4, 2, 3, 0, 1]"
    by code_simp
  moreover have "tie_reversing_argsort [20, 20, 10, 10, 0] = [4, 3, 2, 1, 0]"
    by code_simp
  moreover have "argsort_ok tie_reversing_argsort"
    by (rule argsort_ok_tie_reversing_argsort)
  moreover have "map coord (sort_key (chan 0)
         (byte_rows [[(20, 0, 0), (20, 9, 0), (10, 0, 0), (10, 9, 0), (0, 0, 0)]]))
       = [(0, 4), (0, 2), (0, 3), (0, 0), (0, 1)]"
    by code_simp
  moreover have "map coord (sort_by_channel tie_reversing_argsort 0
         (byte_rows [[(20, 0, 0), (20, 9, 0), (10, 0, 0), (10, 9, 0), (0, 0, 0)]]))
       = [(0, 4), (0, 3), (0, 2), (0, 1), (0, 0)]"
    by code_simp
  moreover have "median_cut_quantize stable_argsort
         (UInt8Image [[(20, 0, 0), (20, 9, 0), (10, 0, 0), (10, 9, 0), (0, 0, 0)]]) 1
       = Inr (UInt8Image [[(16, 6, 0), (16, 6, 0), (5, 0, 0), (16, 6, 0), (5, 0, 0)]])"
    by code_simp
  moreover have "median_cut_quantize tie_reversing_argsort
         (UInt8Image [[(20, 0, 0), (20, 9, 0), (10, 0, 0), (10, 9, 0), (0, 0, 0)]]) 1
       = Inr (UInt8Image [[(16, 3, 0), (16, 3, 0), (16, 3, 0), (5, 4, 0), (5, 4, 0)]])"
    by code_simp
  ultimately show ?thesis by blast
qed

text \<open>
  \<^bold>\<open>C4.\<close> At every level of the recursion the buckets are a partition of the
  flattened array: together they hold exactly its rows, their sizes add up to the number
  of pixels, and no coordinate occurs twice in them, so none occurs in two buckets.
\<close>

theorem buckets_partition:
  assumes "argsort_ok srt"
  shows "mset (concat (buckets srt (snd (flattened_img_array img)) level))
           = mset (snd (flattened_img_array img))
       \<and> sum_list (map length (buckets srt (snd (flattened_img_array img)) level)) = pixel_count img
       \<and> distinct (map coord (concat (buckets srt (snd (flattened_img_array img)) level)))"
proof -
  let ?arr = "snd (flattened_img_array img)"
  have m: "mset (concat (buckets srt ?arr level)) = mset ?arr"
    by (rule mset_concat_buckets [OF assms])
  then have "length (concat (buckets srt ?arr level)) = length ?arr"
    by (metis size_mset)
  then have "sum_list (map length (buckets srt ?arr level)) = pixel_count img"
    by (simp add: length_concat pixel_count_flattened)
  moreover have "distinct (map coord (concat (buckets srt ?arr level)))"
    by (rule distinct_coord_buckets [OF assms distinct_coord_flattened])
  ultimately show ?thesis using m by blast
qed

theorem buckets_partition_witness:
  "argsort_ok stable_argsort
   \<and> mset (concat (buckets stable_argsort
         (snd (flattened_img_array (UInt8Image [[(0, 0, 0), (100, 0, 0), (50, 0, 0)]]))) 1))
       = mset (snd (flattened_img_array (UInt8Image [[(0, 0, 0), (100, 0, 0), (50, 0, 0)]])))
   \<and> sum_list (map length (buckets stable_argsort
         (snd (flattened_img_array (UInt8Image [[(0, 0, 0), (100, 0, 0), (50, 0, 0)]]))) 1))
       = pixel_count (UInt8Image [[(0, 0, 0), (100, 0, 0), (50, 0, 0)]])
   \<and> distinct (map coord (concat (buckets stable_argsort
         (snd (flattened_img_array (UInt8Image [[(0, 0, 0), (100, 0, 0), (50, 0, 0)]]))) 1)))
   \<and> map (map coord) (buckets stable_argsort
         (snd (flattened_img_array (UInt8Image [[(0, 0, 0), (100, 0, 0), (50, 0, 0)]]))) 1)
       = [[(0, 0)], [(0, 2), (0, 1)]]"
proof -
  have ok: "argsort_ok stable_argsort" by (rule argsort_ok_stable_argsort)
  have e: "map (map coord) (buckets stable_argsort
         (snd (flattened_img_array (UInt8Image [[(0, 0, 0), (100, 0, 0), (50, 0, 0)]]))) 1)
       = [[(0, 0)], [(0, 2), (0, 1)]]"
    by code_simp
  from buckets_partition [OF ok, of "UInt8Image [[(0, 0, 0), (100, 0, 0), (50, 0, 0)]]" 1] ok e
  show ?thesis by blast
qed

text \<open>
  \<^bold>\<open>C5\<close> (as amended). At depth 0 the median cut is idempotent. At any depth, a run
  returns an image of bytes unchanged when every bucket it reaches is of one colour. A
  second run at depth 1 or more need not reach such buckets: the counterexample is an
  image that the second run changes (with every sort of the indices, by lemma
  \<open>rerun_changes_image_any_sort\<close>).
\<close>

theorem median_cut_rerun:
  "(median_cut_quantize srt img 0 = Inr out \<longrightarrow> median_cut_quantize srt out 0 = Inr out)
   \<and> (argsort_ok srt \<longrightarrow> (\<forall>b\<in>set (buckets srt (byte_rows g) depth). one_color b) \<longrightarrow>
        median_cut_quantize srt (UInt8Image g) depth = Inr (UInt8Image g))"
  using median_cut_depth0_idempotent median_cut_fixed_point by blast

theorem median_cut_rerun_witness:
  "median_cut_quantize stable_argsort (UInt8Image [[(0, 90, 0), (60, 0, 0), (100, 0, 0)]]) 0
     = Inr (UInt8Image [[(53, 30, 0), (53, 30, 0), (53, 30, 0)]])
   \<and> median_cut_quantize stable_argsort (UInt8Image [[(53, 30, 0), (53, 30, 0), (53, 30, 0)]]) 0
     = Inr (UInt8Image [[(53, 30, 0), (53, 30, 0), (53, 30, 0)]])
   \<and> argsort_ok stable_argsort
   \<and> map (map color) (buckets stable_argsort
          (byte_rows [[(25, 0, 0), (150, 0, 0), (25, 0, 0), (150, 0, 0)]]) 1)
     = [[(25, 0, 0), (25, 0, 0)], [(150, 0, 0), (150, 0, 0)]]
   \<and> median_cut_quantize stable_argsort
        (UInt8Image [[(25, 0, 0), (150, 0, 0), (25, 0, 0), (150, 0, 0)]]) 1
     = Inr (UInt8Image [[(25, 0, 0), (150, 0, 0), (25, 0, 0), (150, 0, 0)]])"
proof -
  have ok: "argsort_ok stable_argsort" by (rule argsort_ok_stable_argsort)
  have e: "median_cut_quantize stable_argsort (UInt8Image [[(0, 90, 0), (60, 0, 0), (100, 0, 0)]]) 0
     = Inr (UInt8Image [[(53, 30, 0), (53, 30, 0), (53, 30, 0)]])"
    by code_simp
  have c: "\<forall>b\<in>set (buckets stable_argsort
          (byte_rows [[(25, 0, 0), (150, 0, 0), (25, 0, 0), (150, 0, 0)]]) 1). one_color b"
    by code_simp
  have m: "map (map color) (buckets stable_argsort
          (byte_rows [[(25, 0, 0), (150, 0, 0), (25, 0, 0), (150, 0, 0)]]) 1)
     = [[(25, 0, 0), (25, 0, 0)], [(150, 0, 0), (150, 0, 0)]]"
    by code_simp
  from median_cut_rerun [of stable_argsort "UInt8Image [[(0, 90, 0), (60, 0, 0), (100, 0, 0)]]"
      "UInt8Image [[(53, 30, 0), (53, 30, 0), (53, 30, 0)]]"
      "[[(25, 0, 0), (150, 0, 0), (25, 0, 0), (150, 0, 0)]]" 1] ok e c m
  show ?thesis by blast
qed

theorem rerun_changes_image_counterexample:
  "median_cut_quantize stable_argsort (UInt8Image [[(0, 90, 0), (60, 0, 0), (100, 0, 0)]]) 1
     = Inr (UInt8Image [[(0, 90, 0), (80, 0, 0), (80, 0, 0)]])
   \<and> median_cut_quantize stable_argsort (UInt8Image [[(0, 90, 0), (80, 0, 0), (80, 0, 0)]]) 1
     = Inr (UInt8Image [[(40, 45, 0), (80, 0, 0), (40, 45, 0)]])"
proof -
  have "median_cut_quantize stable_argsort (UInt8Image [[(0, 90, 0), (60, 0, 0), (100, 0, 0)]]) 1
     = Inr (UInt8Image [[(0, 90, 0), (80, 0, 0), (80, 0, 0)]])"
    by code_simp
  moreover have "median_cut_quantize stable_argsort (UInt8Image [[(0, 90, 0), (80, 0, 0), (80, 0, 0)]]) 1
     = Inr (UInt8Image [[(40, 45, 0), (80, 0, 0), (40, 45, 0)]])"
    by code_simp
  ultimately show ?thesis by blast
qed

text \<open>
  \<^bold>\<open>C6\<close> (as amended). With the method \<^verbatim>\<open>'median_cut'\<close> every \<open>n_colors\<close> below 1
  and not below \<open>-2^63\<close> fails before the image is looked at, from the conversion of the
  logarithm to an integer: with \<^verbatim>\<open>OverflowError\<close> for \<open>n_colors = 0\<close> and with
  \<^verbatim>\<open>ValueError\<close> for a negative \<open>n_colors\<close>. There is no check of the argument and no
  one kind of error.
\<close>

theorem median_cut_rejects_nonpositive:
  "- (2 ^ 63) \<le> n_colors \<Longrightarrow> n_colors < 1 \<Longrightarrow>
   aggregate_colors km lg srt img ''median_cut'' n_colors
     = Inl (if n_colors = 0 then OverflowError
            else ValueError ''cannot convert float NaN to integer'')"
  by (simp add: aggregate_colors_def n_color_param_def)

theorem median_cut_rejects_nonpositive_witness:
  "- (2 ^ 63) \<le> (- 3 :: int) \<and> (- 3 :: int) < 1
   \<and> aggregate_colors (\<lambda>_ _. Inl IndexError) (\<lambda>_. 0) stable_argsort (UInt8Image [[(0, 0, 0)]])
        ''median_cut'' (- 3)
      = Inl (ValueError ''cannot convert float NaN to integer'')"
  using median_cut_rejects_nonpositive
          [of "- 3" "\<lambda>_ _. Inl IndexError" "\<lambda>_. 0" stable_argsort "UInt8Image [[(0, 0, 0)]]"]
  by simp

theorem nonpositive_error_kinds_counterexample:
  "aggregate_colors (\<lambda>_ _. Inl IndexError) (\<lambda>_. 0) stable_argsort (UInt8Image [[(0, 0, 0)]])
        ''median_cut'' 0 = Inl OverflowError
   \<and> aggregate_colors (\<lambda>_ _. Inl IndexError) (\<lambda>_. 0) stable_argsort (UInt8Image [[(0, 0, 0)]])
        ''median_cut'' (- 1) = Inl (ValueError ''cannot convert float NaN to integer'')
   \<and> aggregate_colors (\<lambda>_ _. Inl IndexError) (\<lambda>_. 0) stable_argsort (UInt8Image [[(0, 0, 0)]])
        ''median_cut'' 0
     \<noteq> aggregate_colors (\<lambda>_ _. Inl IndexError) (\<lambda>_. 0) stable_argsort (UInt8Image [[(0, 0, 0)]])
        ''median_cut'' (- 1)"
  by (simp add: aggregate_colors_def n_color_param_def)

text \<open>
  \<^bold>\<open>C7\<close> (as amended). \<^verbatim>\<open>aggregate_colors\<close> dispatches on exactly the names
  \<^verbatim>\<open>'kmeans'\<close> and \<^verbatim>\<open>'median_cut'\<close>; every other name, \<^verbatim>\<open>'cluster'\<close> among them,
  raises \<^verbatim>\<open>ValueError\<close> with a message that names these two.
\<close>

theorem aggregate_colors_methods:
  "(method \<noteq> ''kmeans'' \<and> method \<noteq> ''median_cut'' \<longrightarrow>
      aggregate_colors km lg srt img method n_colors = Inl (ValueError invalid_method_message))
   \<and> aggregate_colors km lg srt img ''kmeans'' n_colors = km img n_colors
   \<and> aggregate_colors km lg srt img ''median_cut'' n_colors
       = (case n_color_param lg n_colors of
            Inl e \<Rightarrow> Inl e
          | Inr depth \<Rightarrow> median_cut_quantize srt img depth)
   \<and> invalid_method_message
       = ''Invalid method. Available methods: '' @ [CHR 0x27] @ ''kmeans'' @ [CHR 0x27]
           @ '', '' @ [CHR 0x27] @ ''median_cut'' @ [CHR 0x27]"
  by (simp add: aggregate_colors_def invalid_method_message_def)

theorem aggregate_colors_methods_witness:
  "''cluster'' \<noteq> ''kmeans'' \<and> ''cluster'' \<noteq> ''median_cut''
   \<and> aggregate_colors (\<lambda>img _. Inr img) (\<lambda>_. 0) stable_argsort (UInt8Image [[(0, 0, 0)]]) ''cluster'' 8
       = Inl (ValueError invalid_method_message)
   \<and> aggregate_colors (\<lambda>img _. Inr img) (\<lambda>_. 0) stable_argsort (UInt8Image [[(0, 0, 0)]]) ''kmeans'' 8
       = Inr (UInt8Image [[(0, 0, 0)]])"
  using aggregate_colors_methods
          [of "''cluster''" "\<lambda>img _. Inr img" "\<lambda>_. 0" stable_argsort "UInt8Image [[(0, 0, 0)]]" 8]
  by simp

theorem cluster_method_counterexample:
  "aggregate_colors (\<lambda>img _. Inr img) (\<lambda>_. 0) stable_argsort (UInt8Image [[(0, 0, 0)]]) ''cluster'' 8
     = Inl (ValueError invalid_method_message)
   \<and> aggregate_colors (\<lambda>img _. Inr img) (\<lambda>_. 0) stable_argsort (UInt8Image [[(0, 0, 0)]]) ''kmeans'' 8
     = Inr (UInt8Image [[(0, 0, 0)]])"
  by (simp add: aggregate_colors_def)

text \<open>
  \<^bold>\<open>C8\<close> (as amended). On an image of bytes every pixel of the result lies in one of
  the buckets, and each of its channels holds the mean of that channel over the bucket
  with the fraction cut off: the result is integral, and a mean that is not an integer
  is not stored as it is.
\<close>

theorem median_cut_stores_truncated_mean:
  assumes "argsort_ok srt"
  shows "\<exists>out. median_cut_quantize srt (UInt8Image g) depth = Inr (UInt8Image out)
      \<and> (\<forall>b\<in>set (buckets srt (byte_rows g) depth). \<forall>d\<in>set b.
             uint (fst (out ! rindex d ! cindex d)) = \<lfloor>np_mean (map chan0 b)\<rfloor>
           \<and> uint (fst (snd (out ! rindex d ! cindex d))) = \<lfloor>np_mean (map chan1 b)\<rfloor>
           \<and> uint (snd (snd (out ! rindex d ! cindex d))) = \<lfloor>np_mean (map chan2 b)\<rfloor>)
      \<and> (\<forall>rc. in_grid out rc \<longrightarrow>
             (\<exists>b\<in>set (buckets srt (byte_rows g) depth). rc \<in> coord ` set b))"
proof -
  from median_cut_uint8 [OF assms, of g depth] obtain out where
    r: "median_cut_quantize srt (UInt8Image g) depth = Inr (UInt8Image out)"
    and sh: "map length out = map length g"
    and v: "\<forall>b\<in>set (buckets srt (byte_rows g) depth). \<forall>d\<in>set b.
             out ! rindex d ! cindex d = cast_pixel (bucket_average b)"
    and c: "\<forall>rc. in_grid g rc \<longrightarrow> (\<exists>b\<in>set (buckets srt (byte_rows g) depth). rc \<in> coord ` set b)"
    by blast
  have "uint (fst (out ! rindex d ! cindex d)) = \<lfloor>np_mean (map chan0 b)\<rfloor>
           \<and> uint (fst (snd (out ! rindex d ! cindex d))) = \<lfloor>np_mean (map chan1 b)\<rfloor>
           \<and> uint (snd (snd (out ! rindex d ! cindex d))) = \<lfloor>np_mean (map chan2 b)\<rfloor>"
    if b: "b \<in> set (buckets srt (byte_rows g) depth)" and d: "d \<in> set b" for b d
  proof -
    from v b d have "out ! rindex d ! cindex d = cast_pixel (bucket_average b)" by blast
    then show ?thesis
      using bucket_means_in_range [OF assms b]
      by (simp add: cast_pixel_def bucket_average_def uint_to_uint8)
  qed
  moreover have "\<forall>rc. in_grid out rc \<longrightarrow>
             (\<exists>b\<in>set (buckets srt (byte_rows g) depth). rc \<in> coord ` set b)"
    using c by (simp add: in_grid_shape [OF sh])
  ultimately show ?thesis using r by blast
qed

theorem median_cut_stores_truncated_mean_witness:
  "argsort_ok stable_argsort
   \<and> median_cut_quantize stable_argsort (UInt8Image [[(0, 0, 0), (1, 0, 0)]]) 0
       = Inr (UInt8Image [[(0, 0, 0), (0, 0, 0)]])
   \<and> buckets stable_argsort (byte_rows [[(0, 0, 0), (1, 0, 0)]]) 0
       = [byte_rows [[(0, 0, 0), (1, 0, 0)]]]
   \<and> uint (fst ([[(0, 0, 0), (0, 0, 0)]] ! 0 ! 1 :: 8 word pixel))
       = \<lfloor>np_mean (map chan0 (byte_rows [[(0, 0, 0), (1, 0, 0)]]))\<rfloor>
   \<and> np_mean (map chan0 (byte_rows [[(0, 0, 0), (1, 0, 0)]])) = 1 / 2"
proof -
  let ?d = "mk_row (\<lambda>w. of_int (uint w)) 0 1 (1 :: 8 word, 0 :: 8 word, 0 :: 8 word)"
  have ok: "argsort_ok stable_argsort" by (rule argsort_ok_stable_argsort)
  have e: "median_cut_quantize stable_argsort (UInt8Image [[(0, 0, 0), (1, 0, 0)]]) 0
       = Inr (UInt8Image [[(0, 0, 0), (0, 0, 0)]])"
    by code_simp
  have b: "buckets stable_argsort (byte_rows [[(0, 0, 0), (1, 0, 0)]]) 0
       = [byte_rows [[(0, 0, 0), (1, 0, 0)]]]"
    by code_simp
  have d: "?d \<in> set (byte_rows [[(0, 0, 0), (1, 0, 0)]])"
    by (simp add: byte_rows_def flatten_rows_def mk_row_def)
  have i: "rindex ?d = 0" "cindex ?d = 1"
    by (simp_all add: mk_row_def)
  have m: "np_mean (map chan0 (byte_rows [[(0, 0, 0), (1, 0, 0)]])) = 1 / 2"
    by code_simp
  from median_cut_stores_truncated_mean [OF ok, of "[[(0, 0, 0), (1, 0, 0)]]" 0] e b
  have "\<forall>d\<in>set (byte_rows [[(0, 0, 0), (1, 0, 0)]]).
          uint (fst ([[(0, 0, 0), (0, 0, 0)]] ! rindex d ! cindex d :: 8 word pixel))
            = \<lfloor>np_mean (map chan0 (byte_rows [[(0, 0, 0), (1, 0, 0)]]))\<rfloor>"
    by auto
  with d have "uint (fst ([[(0, 0, 0), (0, 0, 0)]] ! rindex ?d ! cindex ?d :: 8 word pixel))
            = \<lfloor>np_mean (map chan0 (byte_rows [[(0, 0, 0), (1, 0, 0)]]))\<rfloor>"
    by blast
  then have "uint (fst ([[(0, 0, 0), (0, 0, 0)]] ! 0 ! 1 :: 8 word pixel))
            = \<lfloor>np_mean (map chan0 (byte_rows [[(0, 0, 0), (1, 0, 0)]]))\<rfloor>"
    by (simp only: i)
  with ok e b m show ?thesis by blast
qed

theorem mean_not_stored_exactly_counterexample:
  "aggregate_colors (\<lambda>_ _. Inl IndexError) (\<lambda>_. 0) stable_argsort
      (UInt8Image [[(0, 0, 0), (1, 0, 0)]]) ''median_cut'' 1
     = Inr (UInt8Image [[(0, 0, 0), (0, 0, 0)]])
   \<and> bucket_average (byte_rows [[(0, 0, 0), (1, 0, 0)]]) = (1 / 2, 0, 0)"
proof -
  have "aggregate_colors (\<lambda>_ _. Inl IndexError) (\<lambda>_. 0) stable_argsort
      (UInt8Image [[(0, 0, 0), (1, 0, 0)]]) ''median_cut'' 1
     = Inr (UInt8Image [[(0, 0, 0), (0, 0, 0)]])"
    by code_simp
  moreover have "bucket_average (byte_rows [[(0, 0, 0), (1, 0, 0)]]) = (1 / 2, 0, 0)"
    by code_simp
  ultimately show ?thesis by blast
qed

text \<open>
  \<^bold>\<open>C9.\<close> What \<^verbatim>\<open>'median_cut'\<close> returns for an \<open>n_colors\<close> from 1 and below
  \<open>2^64\<close> depends on the element type of the image. An image of bytes comes back as an image of bytes of the same shape. An image of
  floats, as \<^verbatim>\<open>plt.imread\<close> gives for every PNG file, raises \<^verbatim>\<open>IndexError\<close> as soon
  as it has a pixel: the coordinates were stored in the float array with the colours and
  numpy does not take a float as an index.
\<close>

theorem median_cut_shape_by_dtype:
  assumes "argsort_ok srt" and "1 \<le> n_colors" and "n_colors < 2 ^ 64"
  shows "(is_uint8 img \<longrightarrow>
           (\<exists>out. aggregate_colors km lg srt img ''median_cut'' n_colors = Inr out
                \<and> shape out = shape img \<and> is_uint8 out))
       \<and> (\<not> is_uint8 img \<longrightarrow>
            aggregate_colors km lg srt img ''median_cut'' n_colors
              = (if pixel_count img = 0 then Inr img else Inl IndexError))"
proof -
  define d where "d = (if n_colors < 2 ^ 32 then floor_log2 (nat n_colors) else lg n_colors)"
  have p: "n_color_param lg n_colors = Inr d"
    using assms(2,3) by (simp add: n_color_param_def d_def)
  then have "aggregate_colors km lg srt img ''median_cut'' n_colors
      = median_cut_quantize srt img d"
    by (simp add: aggregate_colors_def)
  then show ?thesis
    using median_cut_quantize_uint8_shape [OF assms(1), of img d]
      median_cut_quantize_float [OF assms(1), of img d]
    by simp
qed

theorem median_cut_shape_by_dtype_witness:
  "argsort_ok stable_argsort \<and> (1::int) \<le> 8 \<and> (8::int) < 2 ^ 64
   \<and> \<not> is_uint8 (Float32Image [[(1, 1, 1)]])
   \<and> aggregate_colors (\<lambda>_ _. Inl (ValueError [])) (\<lambda>_. 0) stable_argsort (Float32Image [[(1, 1, 1)]])
        ''median_cut'' 8 = Inl IndexError
   \<and> is_uint8 (UInt8Image [[(255, 255, 255)]])
   \<and> aggregate_colors (\<lambda>_ _. Inl (ValueError [])) (\<lambda>_. 0) stable_argsort (UInt8Image [[(255, 255, 255)]])
        ''median_cut'' 8 = Inr (UInt8Image [[(255, 255, 255)]])"
proof -
  have ok: "argsort_ok stable_argsort" by (rule argsort_ok_stable_argsort)
  have one: "(1::int) \<le> 8" by simp
  have lt: "(8::int) < 2 ^ 64" by simp
  have u: "aggregate_colors (\<lambda>_ _. Inl (ValueError [])) (\<lambda>_. 0) stable_argsort (UInt8Image [[(255, 255, 255)]])
        ''median_cut'' 8 = Inr (UInt8Image [[(255, 255, 255)]])"
    by code_simp
  from median_cut_shape_by_dtype [OF ok one lt, of "Float32Image [[(1, 1, 1)]]"
      "\<lambda>_ _. Inl (ValueError [])" "\<lambda>_. 0"]
  have "aggregate_colors (\<lambda>_ _. Inl (ValueError [])) (\<lambda>_. 0) stable_argsort (Float32Image [[(1, 1, 1)]])
        ''median_cut'' 8 = Inl IndexError"
    by simp
  with ok u show ?thesis by simp
qed

text \<open>
  \<^bold>\<open>C10.\<close> A call of \<^verbatim>\<open>_median_cut_quantize\<close> leaves every array that was in the
  store as it was, \<^verbatim>\<open>self.image\<close> among them, whether it returns or raises; it adds
  one array, and that new array is what it returns.
\<close>

theorem median_cut_quantize_keeps_input:
  assumes "median_cut_quantize_at srt self h n_colors = (h', res)"
  shows "take (length h) h' = h
       \<and> (image_ref self < length h \<longrightarrow> h' ! image_ref self = h ! image_ref self)
       \<and> length h' = Suc (length h)
       \<and> (\<forall>a. res = Inr a \<longrightarrow> a = length h)"
proof -
  let ?h1 = "h @ [h ! image_ref self]"
  let ?arr = "flattened_img_array (?h1 ! length h)"
  let ?r = "split_into_buckets_at srt ?h1 (length h) (fst ?arr) (snd ?arr) n_colors"
  have h': "h' = fst ?r"
    using assms by (simp add: median_cut_quantize_at_def Let_def case_prod_unfold split: option.splits)
  have res: "res = Inr a \<Longrightarrow> a = length h" for a
    using assms by (simp add: median_cut_quantize_at_def Let_def case_prod_unfold split: option.splits)
  have o: "only_at (length h) ?h1 h'"
    unfolding h' by (rule split_into_buckets_at_only_at)
  then have l: "length h' = Suc (length h)"
    by (simp add: only_at_def)
  have n: "h' ! a = h ! a" if "a < length h" for a
  proof -
    from that have "a \<noteq> length h" by simp
    with o have "h' ! a = ?h1 ! a" by (simp add: only_at_def)
    with that show ?thesis by (simp add: nth_append)
  qed
  have "take (length h) h' = h"
    by (rule nth_equalityI) (simp_all add: l n)
  with l n res show ?thesis by blast
qed

theorem median_cut_quantize_keeps_input_witness:
  "median_cut_quantize_at stable_argsort \<lparr>image_path = ''photo.jpg'', image_ref = 0\<rparr>
       [UInt8Image [[(0, 0, 0), (1, 0, 0)]]] 0
     = ([UInt8Image [[(0, 0, 0), (1, 0, 0)]], UInt8Image [[(0, 0, 0), (0, 0, 0)]]], Inr 1)
   \<and> take (length [UInt8Image [[(0, 0, 0), (1, 0, 0)]]])
        [UInt8Image [[(0, 0, 0), (1, 0, 0)]], UInt8Image [[(0, 0, 0), (0, 0, 0)]]]
     = [UInt8Image [[(0, 0, 0), (1, 0, 0)]]]
   \<and> [UInt8Image [[(0, 0, 0), (1, 0, 0)]], UInt8Image [[(0, 0, 0), (0, 0, 0)]]] ! 0
     = UInt8Image [[(0, 0, 0), (1, 0, 0)]]"
proof -
  have e: "median_cut_quantize_at stable_argsort \<lparr>image_path = ''photo.jpg'', image_ref = 0\<rparr>
       [UInt8Image [[(0, 0, 0), (1, 0, 0)]]] 0
     = ([UInt8Image [[(0, 0, 0), (1, 0, 0)]], UInt8Image [[(0, 0, 0), (0, 0, 0)]]], Inr 1)"
    by code_simp
  from median_cut_quantize_keeps_input [OF e] e show ?thesis by simp
qed

end
